theory Spec2Isabelle
  imports Main
begin

section \<open>Python strings\<close>

text \<open>
  The program is \<^verbatim>\<open>analyze_plot_info.py\<close>. A Python \<^verbatim>\<open>str\<close> is modelled as a
  \<^typ>\<open>string\<close>; a \<^typ>\<open>char\<close> stands for one code point below 256 (the Latin-1 range of
  Unicode). The helpers below are the \<^verbatim>\<open>str\<close> methods the program calls.
\<close>

definition py_isspace :: "char \<Rightarrow> bool" where
  \<comment> \<open>The code points below 256 that Python treats as whitespace: \<^verbatim>\<open>str.isspace\<close>,
      \<^verbatim>\<open>str.strip\<close> and the regular-expression class \<^verbatim>\<open>\s\<close> agree on them.\<close>
  "py_isspace c \<longleftrightarrow> c \<in> set [CHR 0x09, CHR 0x0A, CHR 0x0B, CHR 0x0C, CHR 0x0D,
                               CHR 0x1C, CHR 0x1D, CHR 0x1E, CHR 0x1F, CHR 0x20,
                               CHR 0x85, CHR 0xA0]"

definition py_strip :: "string \<Rightarrow> string" where
  \<comment> \<open>\<^verbatim>\<open>s.strip()\<close>\<close>
  "py_strip s = rev (dropWhile py_isspace (rev (dropWhile py_isspace s)))"

definition py_lower_char :: "char \<Rightarrow> char" where
  \<comment> \<open>Lower case of one code point below 256: \<^verbatim>\<open>A-Z\<close> and the Latin-1 capitals
      \<^verbatim>\<open>0xC0-0xDE\<close> (without the multiplication sign \<^verbatim>\<open>0xD7\<close>) move up by 32.\<close>
  "py_lower_char c =
     (let n = (of_char c :: nat) in
      if (65 \<le> n \<and> n \<le> 90) \<or> (192 \<le> n \<and> n \<le> 222 \<and> n \<noteq> 215)
      then char_of (n + 32) else c)"

definition py_lower :: "string \<Rightarrow> string" where
  \<comment> \<open>\<^verbatim>\<open>s.lower()\<close>\<close>
  "py_lower s = map py_lower_char s"

definition py_count :: "string \<Rightarrow> char \<Rightarrow> nat" where
  \<comment> \<open>\<^verbatim>\<open>s.count(c)\<close> for a one-character \<^verbatim>\<open>c\<close>\<close>
  "py_count s c = length (filter (\<lambda>d. d = c) s)"

fun py_split :: "char \<Rightarrow> string \<Rightarrow> string list" where
  \<comment> \<open>\<^verbatim>\<open>s.split(c)\<close> for a one-character separator: never an empty list\<close>
  "py_split sep [] = [[]]"
| "py_split sep (c # cs) =
     (if c = sep then [] # py_split sep cs
      else (case py_split sep cs of
              [] \<Rightarrow> [[c]]
            | w # ws \<Rightarrow> (c # w) # ws))"

fun py_join :: "string \<Rightarrow> string list \<Rightarrow> string" where
  \<comment> \<open>\<^verbatim>\<open>sep.join(parts)\<close>\<close>
  "py_join sep [] = []"
| "py_join sep [p] = p"
| "py_join sep (p # q # ps) = p @ sep @ py_join sep (q # ps)"

section \<open>Python regular expressions\<close>

text \<open>
  The program's parsing is done by calls of \<^verbatim>\<open>re.search\<close>, \<^verbatim>\<open>re.split\<close> and
  \<^verbatim>\<open>re.sub\<close>. Each pattern of the source is written below as a term of \<open>regex\<close>, and
  the three functions are modelled for the constructs these patterns use: literal
  characters, character classes, greedy and lazy repetition of a single character or
  class, sequence, alternation, look-ahead, one capturing group and the anchors
  \<^verbatim>\<open>^\<close>, \<^verbatim>\<open>$\<close> and \<^verbatim>\<open>\Z\<close>.
\<close>

record re_flags =
  ignorecase :: bool
  dotall :: bool
  multiline :: bool

datatype atom =
    Ch char           \<comment> \<open>a literal character\<close>
  | Dot               \<comment> \<open>\<^verbatim>\<open>.\<close>\<close>
  | Space             \<comment> \<open>\<^verbatim>\<open>\s\<close>\<close>
  | Digit             \<comment> \<open>\<^verbatim>\<open>\d\<close>\<close>
  | OneOf string      \<comment> \<open>\<^verbatim>\<open>[...]\<close> of literal characters\<close>
  | NoneOf string     \<comment> \<open>\<^verbatim>\<open>[^...]\<close> of literal characters\<close>
  | Or atom atom      \<comment> \<open>union inside one class, as in \<^verbatim>\<open>[,\s]\<close>\<close>

fun atom_ok :: "re_flags \<Rightarrow> atom \<Rightarrow> char \<Rightarrow> bool" where
  \<comment> \<open>Does one character match? The classes of the source hold no letters, so only
      literal characters depend on \<^verbatim>\<open>re.IGNORECASE\<close>.\<close>
  "atom_ok f (Ch p) c = (if ignorecase f then py_lower_char c = py_lower_char p else c = p)"
| "atom_ok f Dot c = (dotall f \<or> c \<noteq> CHR 0x0A)"
| "atom_ok f Space c = py_isspace c"
| "atom_ok f Digit c = (c \<in> set ''0123456789'')"
| "atom_ok f (OneOf cs) c = (c \<in> set cs)"
| "atom_ok f (NoneOf cs) c = (c \<notin> set cs)"
| "atom_ok f (Or a b) c = (atom_ok f a c \<or> atom_ok f b c)"

datatype regex =
    Eps                   \<comment> \<open>the empty pattern\<close>
  | Atom atom
  | Seq regex regex
  | Alt regex regex       \<comment> \<open>\<^verbatim>\<open>a|b\<close>\<close>
  | Rep bool nat atom     \<comment> \<open>\<open>Rep greedy n a\<close>: at least \<open>n\<close> times \<open>a\<close>; \<^verbatim>\<open>a*\<close>, \<^verbatim>\<open>a+\<close>,
                              \<^verbatim>\<open>a{3,}\<close> are greedy, \<^verbatim>\<open>a*?\<close>, \<^verbatim>\<open>a+?\<close> lazy\<close>
  | Look regex            \<comment> \<open>\<^verbatim>\<open>(?=...)\<close>\<close>
  | Grp regex             \<comment> \<open>\<^verbatim>\<open>(...)\<close>, the one capturing group\<close>
  | Bol                   \<comment> \<open>\<^verbatim>\<open>^\<close>\<close>
  | Eol                   \<comment> \<open>\<^verbatim>\<open>$\<close>\<close>
  | EndZ                  \<comment> \<open>\<^verbatim>\<open>\Z\<close>\<close>

text \<open>
  A matcher state is the character before the cursor (\<open>None\<close> at the start of the text;
  it is all that \<^verbatim>\<open>^\<close> looks at), the text from the cursor on, and the span of group 1
  once it has matched, kept as the texts that remained at its start and at its end.
  \<open>rmatch f r st\<close> lists every way in which \<open>r\<close> matches from \<open>st\<close>, in the order in which
  Python's backtracking matcher tries them: the left alternative before the right one,
  the longest repetition first when greedy and the shortest first when lazy.
\<close>

type_synonym span = "string \<times> string"
type_synonym mstate = "char option \<times> string \<times> span option"

fun rep_states :: "(char \<Rightarrow> bool) \<Rightarrow> nat \<Rightarrow> char option \<Rightarrow> string \<Rightarrow> (char option \<times> string) list" where
  \<comment> \<open>the cursor after \<open>n\<close> or more characters that satisfy \<open>P\<close>, shortest first\<close>
  "rep_states P n prev [] = (if n = 0 then [(prev, [])] else [])"
| "rep_states P n prev (c # cs) =
     (if n = 0 then [(prev, c # cs)] else []) @
     (if P c then rep_states P (n - 1) (Some c) cs else [])"

fun rmatch :: "re_flags \<Rightarrow> regex \<Rightarrow> mstate \<Rightarrow> mstate list" where
  "rmatch f Eps st = [st]"
| "rmatch f (Atom a) (prev, rest, g) =
     (case rest of
        [] \<Rightarrow> []
      | c # cs \<Rightarrow> if atom_ok f a c then [(Some c, cs, g)] else [])"
| "rmatch f (Seq r1 r2) st = concat (map (rmatch f r2) (rmatch f r1 st))"
| "rmatch f (Alt r1 r2) st = rmatch f r1 st @ rmatch f r2 st"
| "rmatch f (Rep greedy n a) (prev, rest, g) =
     (let states = rep_states (atom_ok f a) n prev rest
      in map (\<lambda>(prev', rest'). (prev', rest', g)) (if greedy then rev states else states))"
| "rmatch f (Look r) st = (if rmatch f r st = [] then [] else [st])"
| "rmatch f (Grp r) (prev, rest, g) =
     map (\<lambda>(prev', rest', g'). (prev', rest', Some (rest, rest'))) (rmatch f r (prev, rest, g))"
| "rmatch f Bol (prev, rest, g) =
     (case prev of
        None \<Rightarrow> [(prev, rest, g)]
      | Some p \<Rightarrow> if multiline f \<and> p = CHR 0x0A then [(prev, rest, g)] else [])"
| "rmatch f Eol (prev, rest, g) =
     (case rest of
        [] \<Rightarrow> [(prev, rest, g)]
      | c # cs \<Rightarrow> if c = CHR 0x0A \<and> (multiline f \<or> cs = []) then [(prev, rest, g)] else [])"
| "rmatch f EndZ (prev, rest, g) = (if rest = [] then [(prev, rest, g)] else [])"

fun lit :: "string \<Rightarrow> regex" where
  \<comment> \<open>a literal word\<close>
  "lit [] = Eps"
| "lit (c # cs) = Seq (Atom (Ch c)) (lit cs)"

fun seqs :: "regex list \<Rightarrow> regex" where
  "seqs [] = Eps"
| "seqs [r] = r"
| "seqs (r # rs) = Seq r (seqs rs)"

fun alts :: "regex list \<Rightarrow> regex" where
  "alts [] = Eps"
| "alts [r] = r"
| "alts (r # rs) = Alt r (alts rs)"

fun search_from :: "re_flags \<Rightarrow> regex \<Rightarrow> char option \<Rightarrow> string \<Rightarrow> mstate option" where
  \<comment> \<open>the leftmost start at which the pattern matches, and its first match there\<close>
  "search_from f r prev [] =
     (case rmatch f r (prev, [], None) of [] \<Rightarrow> None | m # _ \<Rightarrow> Some m)"
| "search_from f r prev (c # cs) =
     (case rmatch f r (prev, c # cs, None) of
        [] \<Rightarrow> search_from f r (Some c) cs
      | m # _ \<Rightarrow> Some m)"

definition re_search :: "re_flags \<Rightarrow> regex \<Rightarrow> string \<Rightarrow> mstate option" where
  \<comment> \<open>\<^verbatim>\<open>re.search(pattern, s, flags)\<close>\<close>
  "re_search f r s = search_from f r None s"

definition group1 :: "mstate \<Rightarrow> string" where
  \<comment> \<open>\<^verbatim>\<open>match.group(1)\<close>\<close>
  "group1 m = (case snd (snd m) of None \<Rightarrow> [] | Some (s, e) \<Rightarrow> take (length s - length e) s)"

definition after_group1 :: "mstate \<Rightarrow> string" where
  \<comment> \<open>\<^verbatim>\<open>s[match.end(1):]\<close>, the text from the end of group 1 on\<close>
  "after_group1 m = (case snd (snd m) of None \<Rightarrow> [] | Some (s, e) \<Rightarrow> e)"

definition match_lengths :: "re_flags \<Rightarrow> regex \<Rightarrow> char option \<Rightarrow> string \<Rightarrow> nat list" where
  \<comment> \<open>the lengths of the matches at the cursor, in the matcher's order\<close>
  "match_lengths f r prev rest =
     map (\<lambda>(prev', rest', g'). length rest - length rest') (rmatch f r (prev, rest, None))"

text \<open>
  \<open>scan\<close> cuts the text at the successive non-overlapping matches, as \<^verbatim>\<open>re.split\<close> and
  \<^verbatim>\<open>re.sub\<close> both do: \<open>skip\<close> counts the characters of the current match still to pass,
  \<open>seg\<close> is the piece since the last match, reversed. After an empty match the matcher
  must advance: at the same cursor only a non-empty match counts, and failing that the
  character goes to the next piece.
\<close>

fun scan :: "re_flags \<Rightarrow> regex \<Rightarrow> char option \<Rightarrow> string \<Rightarrow> nat \<Rightarrow> string \<Rightarrow> string list" where
  "scan f r prev [] skip seg =
     (if skip = 0 \<and> match_lengths f r prev [] \<noteq> [] then [rev seg, []] else [rev seg])"
| "scan f r prev (c # cs) skip seg =
     (if skip > 0 then scan f r (Some c) cs (skip - 1) seg
      else
        (case match_lengths f r prev (c # cs) of
           [] \<Rightarrow> scan f r (Some c) cs 0 (c # seg)
         | n # ns \<Rightarrow>
             if n > 0 then rev seg # scan f r (Some c) cs (n - 1) []
             else
               (case filter (\<lambda>m. m > 0) ns of
                  [] \<Rightarrow> rev seg # scan f r (Some c) cs 0 [c]
                | m # _ \<Rightarrow> rev seg # [] # scan f r (Some c) cs (m - 1) [])))"

definition re_split :: "re_flags \<Rightarrow> regex \<Rightarrow> string \<Rightarrow> string list" where
  \<comment> \<open>\<^verbatim>\<open>re.split(pattern, s)\<close> for a pattern without a group\<close>
  "re_split f r s = scan f r None s 0 []"

definition re_sub :: "re_flags \<Rightarrow> regex \<Rightarrow> string \<Rightarrow> string \<Rightarrow> string" where
  \<comment> \<open>\<^verbatim>\<open>re.sub(pattern, repl, s)\<close> for a replacement without escapes\<close>
  "re_sub f r repl s = py_join repl (re_split f r s)"

section \<open>Record Reassembler: \<^verbatim>\<open>clean_multiline_csv\<close>\<close>

text \<open>
  The loop of \<^verbatim>\<open>clean_multiline_csv\<close> keeps three variables that it updates per line;
  they are the fields of the loop state. (\<^verbatim>\<open>current_row\<close> is assigned once and never
  read.)
\<close>

record reassembler =
  in_multiline_field :: bool
  multiline_content :: "string list"
  output_lines :: "string list"

definition reassembler_init :: reassembler where
  "reassembler_init = \<lparr>in_multiline_field = False, multiline_content = [], output_lines = []\<rparr>"

definition reassemble_line :: "reassembler \<Rightarrow> string \<Rightarrow> reassembler" where
  \<comment> \<open>one iteration of \<^verbatim>\<open>for line in lines\<close>\<close>
  "reassemble_line st line =
     (if \<not> in_multiline_field st then
        (let quote_count = py_count line (CHR 0x22) in
         if quote_count mod 2 = 1 then
           st\<lparr>in_multiline_field := True, multiline_content := [line]\<rparr>
         else if py_strip line \<noteq> [] then
           st\<lparr>output_lines := output_lines st @ [line]\<rparr>
         else st)
      else
        (let mc = multiline_content st @ [line];
             quote_count = py_count line (CHR 0x22) in
         if quote_count mod 2 = 1 then
           st\<lparr>in_multiline_field := False,
              output_lines := output_lines st @ [py_join '' '' mc],
              multiline_content := []\<rparr>
         else st\<lparr>multiline_content := mc\<rparr>))"

definition reassemble_from :: "reassembler \<Rightarrow> string list \<Rightarrow> reassembler" where
  \<comment> \<open>the whole \<^verbatim>\<open>for\<close> loop, from a given state\<close>
  "reassemble_from st lines = foldl reassemble_line st lines"

definition reassemble :: "string list \<Rightarrow> string list" where
  \<comment> \<open>the lines the function writes: \<^verbatim>\<open>output_lines\<close> after the loop, nothing else\<close>
  "reassemble lines = output_lines (reassemble_from reassembler_init lines)"

definition clean_multiline_csv :: "string \<Rightarrow> string" where
  \<comment> \<open>from the content read to the content written to the cleaned file\<close>
  "clean_multiline_csv content =
     concat (map (\<lambda>line. line @ [CHR 0x0A]) (reassemble (py_split (CHR 0x0A) content)))"

section \<open>Land-Record Field Extractor: \<^verbatim>\<open>parse_owners_raw_field\<close>\<close>

subsection \<open>The patterns of the source\<close>

definition no_flags :: re_flags where
  "no_flags = \<lparr>ignorecase = False, dotall = False, multiline = False\<rparr>"

definition section_flags :: re_flags where
  \<comment> \<open>\<^verbatim>\<open>re.DOTALL | re.IGNORECASE\<close>\<close>
  "section_flags = \<lparr>ignorecase = True, dotall = True, multiline = False\<rparr>"

definition remarks_flags :: re_flags where
  \<comment> \<open>\<^verbatim>\<open>re.DOTALL | re.IGNORECASE | re.MULTILINE\<close>\<close>
  "remarks_flags = \<lparr>ignorecase = True, dotall = True, multiline = True\<rparr>"

definition ws0 :: regex where
  \<comment> \<open>\<^verbatim>\<open>\s*\<close>\<close>
  "ws0 = Rep True 0 Space"

definition ws1 :: regex where
  \<comment> \<open>\<^verbatim>\<open>\s+\<close>\<close>
  "ws1 = Rep True 1 Space"

definition colon :: regex where
  "colon = Atom (Ch CHR '':'')"

definition tenants_label :: regex where
  \<comment> \<open>\<^verbatim>\<open>Tenants\s+names\s*:\<close>\<close>
  "tenants_label = seqs [lit ''Tenants'', ws1, lit ''names'', ws0, colon]"

definition total_area_label :: regex where
  \<comment> \<open>\<^verbatim>\<open>Total Area\s*:\<close>\<close>
  "total_area_label = seqs [lit ''Total Area'', ws0, colon]"

definition occupants_end :: regex where
  \<comment> \<open>\<^verbatim>\<open>Tenants\s+names\s*:|Total Area\s*:|-------|---------|\Z\<close>\<close>
  "occupants_end =
     alts [tenants_label, total_area_label, lit ''-------'', lit ''---------'', EndZ]"

definition tenants_end :: regex where
  \<comment> \<open>\<^verbatim>\<open>Total Area\s*:|-------|---------|\Z\<close>\<close>
  "tenants_end = alts [total_area_label, lit ''-------'', lit ''---------'', EndZ]"

definition occupants_re :: regex where
  \<comment> \<open>\<^verbatim>\<open>Occupants Names\s*:\s*(.+?)(?=Tenants\s+names\s*:|Total Area\s*:|-------|---------|\Z)\<close>\<close>
  "occupants_re =
     seqs [lit ''Occupants Names'', ws0, colon, ws0, Grp (Rep False 1 Dot), Look occupants_end]"

definition tenants_re :: regex where
  \<comment> \<open>\<^verbatim>\<open>Tenants\s+names\s*:\s*(.+?)(?=Total Area\s*:|-------|---------|\Z)\<close>\<close>
  "tenants_re =
     seqs [lit ''Tenants'', ws1, lit ''names'', ws0, colon, ws0, Grp (Rep False 1 Dot),
           Look tenants_end]"

definition numbered_re :: regex where
  \<comment> \<open>\<^verbatim>\<open>\d+\)\.\s*\<close>\<close>
  "numbered_re = seqs [Rep True 1 Digit, Atom (Ch CHR '')''), Atom (Ch CHR ''.''), ws0]"

definition tenant_sep_re :: regex where
  \<comment> \<open>\<^verbatim>\<open>[,;]\s*|\s+and\s+\<close>\<close>
  "tenant_sep_re = Alt (Seq (Atom (OneOf '',;'')) ws0) (seqs [ws1, lit ''and'', ws1])"

definition prefix_re :: regex where
  \<comment> \<open>\<^verbatim>\<open>^[%#&*!@$^()]+\s*\<close>\<close>
  "prefix_re = seqs [Bol, Rep True 1 (OneOf ''%#&*!@$^()''), ws0]"

definition trailing_re :: regex where
  \<comment> \<open>\<^verbatim>\<open>[,\s\n\r]+$\<close>\<close>
  "trailing_re =
     seqs [Rep True 1 (Or (OneOf '','') (Or Space (OneOf [CHR 0x0A, CHR 0x0D]))), Eol]"

definition spaces_re :: regex where
  \<comment> \<open>\<^verbatim>\<open>\s+\<close>\<close>
  "spaces_re = Rep True 1 Space"

definition newlines_re :: regex where
  \<comment> \<open>\<^verbatim>\<open>\n+\<close>\<close>
  "newlines_re = Rep True 1 (Ch (CHR 0x0A))"

definition rule_re :: regex where
  \<comment> \<open>\<^verbatim>\<open>[-=]{3,}\<close>\<close>
  "rule_re = Rep True 3 (OneOf ''-='')"

definition tenants_word :: regex where
  \<comment> \<open>\<^verbatim>\<open>Tenants\s+names\<close>\<close>
  "tenants_word = seqs [lit ''Tenants'', ws1, lit ''names'']"

text \<open>
  The list \<^verbatim>\<open>standard_patterns\<close>, in the source's order:
  \<^enum> \<^verbatim>\<open>Taluka Name\s*:[^:]*?(?=\s+Village Name|Subdiv No|Occupants Names|Tenants\s+names|Total Area|\Z)\<close>
  \<^enum> \<^verbatim>\<open>Village Name\s*:[^:]*?(?=\s+Subdiv No|Occupants Names|Tenants\s+names|Total Area|\Z)\<close>
  \<^enum> \<^verbatim>\<open>Subdiv No\s*:[^:]*?(?=\s+Occupants Names|Tenants\s+names|Total Area|\Z)\<close>
  \<^enum> \<^verbatim>\<open>Total Area\s*:[^:]*?(?=\s*[-=]{3,}|\Z)\<close>
  \<^enum> \<^verbatim>\<open>Occupants Names\s*:.*?(?=Tenants\s+names\s*:|Total Area\s*:|-------|---------|\Z)\<close>
  \<^enum> \<^verbatim>\<open>Tenants\s+names\s*:.*?(?=Total Area\s*:|-------|---------|\Z)\<close>
  \<^enum> \<^verbatim>\<open>[-=]{3,}\<close>
  \<^enum> \<^verbatim>\<open>^\s*$\<close>
\<close>

definition standard_patterns :: "regex list" where
  "standard_patterns =
    [seqs [lit ''Taluka Name'', ws0, colon, Rep False 0 (NoneOf '':''),
           Look (alts [Seq ws1 (lit ''Village Name''), lit ''Subdiv No'',
                       lit ''Occupants Names'', tenants_word, lit ''Total Area'', EndZ])],
     seqs [lit ''Village Name'', ws0, colon, Rep False 0 (NoneOf '':''),
           Look (alts [Seq ws1 (lit ''Subdiv No''), lit ''Occupants Names'', tenants_word,
                       lit ''Total Area'', EndZ])],
     seqs [lit ''Subdiv No'', ws0, colon, Rep False 0 (NoneOf '':''),
           Look (alts [Seq ws1 (lit ''Occupants Names''), tenants_word, lit ''Total Area'',
                       EndZ])],
     seqs [lit ''Total Area'', ws0, colon, Rep False 0 (NoneOf '':''),
           Look (alts [Seq ws0 rule_re, EndZ])],
     seqs [lit ''Occupants Names'', ws0, colon, Rep False 0 Dot, Look occupants_end],
     seqs [lit ''Tenants'', ws1, lit ''names'', ws0, colon, Rep False 0 Dot, Look tenants_end],
     rule_re,
     seqs [Bol, ws0, Eol]]"

subsection \<open>The function\<close>

text \<open>
  The argument is one cell of the column \<^verbatim>\<open>Owners Raw\<close>: missing (\<^verbatim>\<open>None\<close> or the float
  \<^verbatim>\<open>nan\<close>), some other scalar that is not a string (a number, a boolean), or a string.
\<close>

datatype py_value = PyNone | PyNaN | PyScalar | PyStr string

fun pd_isna :: "py_value \<Rightarrow> bool" where
  \<comment> \<open>\<^verbatim>\<open>pd.isna(x)\<close> on a scalar\<close>
  "pd_isna PyNone = True"
| "pd_isna PyNaN = True"
| "pd_isna PyScalar = False"
| "pd_isna (PyStr s) = False"

fun isinstance_str :: "py_value \<Rightarrow> bool" where
  "isinstance_str (PyStr s) = True"
| "isinstance_str v = False"

fun str_of :: "py_value \<Rightarrow> string" where
  "str_of (PyStr s) = s"
| "str_of v = []"

record parsed_owner_info =
  occupant_count :: int
  occupant_names :: "string list"
  tenant_count :: int
  tenant_names :: "string list"
  remarks :: string

definition default_info :: parsed_owner_info where
  \<comment> \<open>the dictionary returned for a missing cell, and the initial \<^verbatim>\<open>result\<close>\<close>
  "default_info =
     \<lparr>occupant_count = 0, occupant_names = [], tenant_count = 0, tenant_names = [],
      remarks = []\<rparr>"

definition occupants_match :: "string \<Rightarrow> string option" where
  \<comment> \<open>\<^verbatim>\<open>occupants_match\<close>: \<open>None\<close> when the search fails, else its \<^verbatim>\<open>group(1)\<close>\<close>
  "occupants_match text = map_option group1 (re_search section_flags occupants_re text)"

definition tenants_match :: "string \<Rightarrow> string option" where
  "tenants_match text = map_option group1 (re_search section_flags tenants_re text)"

definition occupants_found :: "string \<Rightarrow> (string \<times> string) option" where
  \<comment> \<open>the same search, keeping beside \<^verbatim>\<open>group(1)\<close> the text that follows the group\<close>
  "occupants_found text =
     map_option (\<lambda>m. (group1 m, after_group1 m)) (re_search section_flags occupants_re text)"

definition tenants_found :: "string \<Rightarrow> (string \<times> string) option" where
  "tenants_found text =
     map_option (\<lambda>m. (group1 m, after_group1 m)) (re_search section_flags tenants_re text)"

definition placeholders :: "string list" where
  "placeholders = [''nil'', ''null'', ''none'', ''na'', ''n/a'', ''-'']"

definition clean_name :: "string \<Rightarrow> string" where
  \<comment> \<open>the three assignments to \<^verbatim>\<open>cleaned_name\<close>, the same in both loops\<close>
  "clean_name part =
     (let cleaned_name = py_strip (re_sub no_flags prefix_re [] part);
          cleaned_name = py_strip (re_sub no_flags trailing_re [] cleaned_name)
      in re_sub no_flags spaces_re '' '' cleaned_name)"

fun collect_names :: "string list \<Rightarrow> string list \<Rightarrow> string list" where
  \<comment> \<open>\<^verbatim>\<open>for part in parts\<close>, from the names appended so far; the loop over
      \<^verbatim>\<open>occupant_parts\<close> and the loop over \<^verbatim>\<open>tenant_parts\<close> have the same body\<close>
  "collect_names names [] = names"
| "collect_names names (p # ps) =
     (let part = py_strip p in
      if part \<noteq> [] then
        (let cleaned_name = clean_name part in
         if cleaned_name \<noteq> [] \<and> py_lower cleaned_name \<notin> set placeholders
            \<and> cleaned_name \<notin> set names
         then collect_names (names @ [cleaned_name]) ps
         else collect_names names ps)
      else collect_names names ps)"

definition occupant_parts :: "string \<Rightarrow> string list" where
  "occupant_parts occupants_text =
     (if re_search no_flags numbered_re occupants_text \<noteq> None
      then re_split no_flags numbered_re occupants_text
      else [occupants_text])"

definition tenant_parts :: "string \<Rightarrow> string list" where
  "tenant_parts tenants_text =
     (if re_search no_flags numbered_re tenants_text \<noteq> None
      then re_split no_flags numbered_re tenants_text
      else re_split no_flags tenant_sep_re tenants_text)"

definition remarks_of :: "string \<Rightarrow> string" where
  \<comment> \<open>\<^verbatim>\<open>text_for_remarks\<close>, from the stripped text to the final remarks\<close>
  "remarks_of text =
     (let text_for_remarks =
            foldl (\<lambda>t pattern. re_sub remarks_flags pattern [] t) text standard_patterns;
          text_for_remarks = re_sub no_flags newlines_re '' '' text_for_remarks;
          text_for_remarks = re_sub no_flags spaces_re '' '' text_for_remarks
      in py_strip text_for_remarks)"

definition parse_str :: "string \<Rightarrow> parsed_owner_info" where
  \<comment> \<open>the body of the function once the argument is known to be a string\<close>
  "parse_str owners_raw_text =
     (let text = py_strip owners_raw_text;
          result = default_info;
          result =
            (case occupants_match text of
               None \<Rightarrow> result
             | Some g \<Rightarrow>
                 (let names = collect_names [] (occupant_parts (py_strip g))
                  in result\<lparr>occupant_names := names, occupant_count := int (length names)\<rparr>));
          result =
            (case tenants_match text of
               None \<Rightarrow> result
             | Some g \<Rightarrow>
                 (let names = collect_names [] (tenant_parts (py_strip g))
                  in result\<lparr>tenant_names := names, tenant_count := int (length names)\<rparr>))
      in result\<lparr>remarks := remarks_of text\<rparr>)"

definition parse_owners_raw_field :: "py_value \<Rightarrow> parsed_owner_info" where
  "parse_owners_raw_field owners_raw_text =
     (if pd_isna owners_raw_text \<or> \<not> isinstance_str owners_raw_text then default_info
      else parse_str (str_of owners_raw_text))"

subsection \<open>The call on any argument\<close>

text \<open>
  The first line of the function evaluates \<^verbatim>\<open>pd.isna(x) or not isinstance(x, str)\<close>.
  On a scalar \<^verbatim>\<open>pd.isna\<close> gives a boolean. On a list or array it gives an array of
  booleans, one per element, and \<^verbatim>\<open>or\<close> asks for the truth value of that array, which
  raises \<^verbatim>\<open>ValueError\<close> when the array has more than one element. An argument is
  therefore a scalar or an array-like of two or more scalars (its first two elements and
  the others); a raise is the value \<open>Inl\<close>.
\<close>

datatype py_error = ValueError

datatype py_argument = Scalar py_value | ArrayLike py_value py_value "py_value list"

datatype isna_result = IsnaBool bool | IsnaArray bool bool "bool list"

fun pd_isna_arg :: "py_argument \<Rightarrow> isna_result" where
  \<comment> \<open>\<^verbatim>\<open>pd.isna(x)\<close>\<close>
  "pd_isna_arg (Scalar v) = IsnaBool (pd_isna v)"
| "pd_isna_arg (ArrayLike a b cs) = IsnaArray (pd_isna a) (pd_isna b) (map pd_isna cs)"

fun truth_value :: "isna_result \<Rightarrow> py_error + bool" where
  \<comment> \<open>the truth value that \<^verbatim>\<open>or\<close> takes of its left operand\<close>
  "truth_value (IsnaBool b) = Inr b"
| "truth_value (IsnaArray a b cs) = Inl ValueError"

fun isinstance_str_arg :: "py_argument \<Rightarrow> bool" where
  "isinstance_str_arg (Scalar v) = isinstance_str v"
| "isinstance_str_arg (ArrayLike a b cs) = False"

fun str_of_arg :: "py_argument \<Rightarrow> string" where
  "str_of_arg (Scalar v) = str_of v"
| "str_of_arg (ArrayLike a b cs) = []"

definition guard :: "py_argument \<Rightarrow> py_error + bool" where
  \<comment> \<open>\<^verbatim>\<open>pd.isna(x) or not isinstance(x, str)\<close>: the right operand is evaluated only
      when the left one is false\<close>
  "guard x =
     (case truth_value (pd_isna_arg x) of
        Inl e \<Rightarrow> Inl e
      | Inr True \<Rightarrow> Inr True
      | Inr False \<Rightarrow> Inr (\<not> isinstance_str_arg x))"

definition parse_owners_raw_field_call :: "py_argument \<Rightarrow> py_error + parsed_owner_info" where
  "parse_owners_raw_field_call x =
     (case guard x of
        Inl e \<Rightarrow> Inl e
      | Inr True \<Rightarrow> Inr default_info
      | Inr False \<Rightarrow> Inr (parse_str (str_of_arg x)))"

section \<open>Classification in \<^verbatim>\<open>load_and_validate_data\<close>\<close>

text \<open>
  The two flags are computed per row from the cell of the column \<^verbatim>\<open>Owners Raw\<close>, when the
  file has that column. A cell read from the file is text or missing; \<^verbatim>\<open>astype(str)\<close>
  turns a missing cell into the text \<^verbatim>\<open>nan\<close>.
\<close>

datatype cell = Missing | Text string

fun astype_str :: "cell \<Rightarrow> string" where
  "astype_str Missing = ''nan''"
| "astype_str (Text s) = s"

definition contains_flags :: re_flags where
  \<comment> \<open>\<^verbatim>\<open>case=False\<close>: \<^verbatim>\<open>re.IGNORECASE\<close> alone\<close>
  "contains_flags = \<lparr>ignorecase = True, dotall = False, multiline = False\<rparr>"

definition str_contains :: "regex \<Rightarrow> string \<Rightarrow> bool" where
  \<comment> \<open>\<^verbatim>\<open>.str.contains(pattern, case=False, na=False, regex=True)\<close> on one text\<close>
  "str_contains pattern s \<longleftrightarrow> re_search contains_flags pattern s \<noteq> None"

definition comunidade_variations :: "string list" where
  "comunidade_variations =
    [''Comminidade'', ''Commmunidade'', ''Commnnidade'', ''Commnunidade'', ''Commonidade'',
     ''Commudade'', ''Commudidade'', ''Commuidade'', ''Commundade'', ''Commundiade'',
     ''Communiade'', ''Communicade'', ''Communid'', ''Communida'', ''Communidad'',
     ''Communidad3e'', ''Communidada'', ''Communidade'', ''Communidadee'', ''Communidae'',
     ''Communidaede'', ''Communidasde'', ''Communiddade'', ''Communidde'', ''Communide'',
     ''Communidede'', ''Communindade'', ''Communnidade'', ''Communudade'', ''Comuidade'',
     ''Comundiade'', ''Comuniade'', ''Comunidad'', ''Comunidade'', ''Comunidae'']"

definition comunidade_pattern :: regex where
  \<comment> \<open>\<^verbatim>\<open>'|'.join(comunidade_variations)\<close>\<close>
  "comunidade_pattern = alts (map lit comunidade_variations)"

definition government_keywords :: "string list" where
  "government_keywords =
    [''government'', ''govt'', ''railway'', '' rly '', ''block  '', ''forest'',
     '' engineer'', ''officer'', ''department'', ''ministry'', ''division'']"

definition government_pattern :: regex where
  \<comment> \<open>\<^verbatim>\<open>'|'.join([re.escape(keyword) for keyword in government_keywords])\<close>: an escaped
      keyword matches itself, letter by letter\<close>
  "government_pattern = alts (map lit government_keywords)"

definition is_comunidade :: "cell option \<Rightarrow> cell option \<Rightarrow> bool" where
  \<comment> \<open>The arguments are the row's cells in the columns \<^verbatim>\<open>Owners Raw\<close> and \<^verbatim>\<open>Communidade\<close>,
      \<open>None\<close> when the file lacks the column. In the fallback the source compares
      \<^verbatim>\<open>.str.upper()\<close> with \<^verbatim>\<open>TRUE\<close>; below code point 256 only the letters t, r, u, e
      themselves have these capitals, so the test is the one on the lower case.\<close>
  "is_comunidade owners_raw communidade =
     (case owners_raw of
        Some c \<Rightarrow> str_contains comunidade_pattern (astype_str c)
      | None \<Rightarrow>
          (case communidade of
             Some d \<Rightarrow> py_lower (astype_str d) = ''true''
           | None \<Rightarrow> False))"

definition is_government :: "cell option \<Rightarrow> bool" where
  "is_government owners_raw =
     (case owners_raw of
        Some c \<Rightarrow> str_contains government_pattern (astype_str c)
      | None \<Rightarrow> False)"

section \<open>Reference definitions for the statements\<close>

subsection \<open>Ordered sets of names\<close>

text \<open>
  \<open>keep_first\<close> is the ordered set of a list: every element once, at the place of its
  first occurrence. \<open>accepted_names\<close> lists, in the order of the parts, the cleaned names
  that pass every test of the loop but the duplicate test; the candidates of a cell are
  the accepted names of its section.
\<close>

function keep_first :: "'a list \<Rightarrow> 'a list" where
  "keep_first [] = []"
| "keep_first (x # xs) = x # keep_first (filter (\<lambda>y. y \<noteq> x) xs)"
  by pat_completeness auto
termination
  by (relation "measure length") (auto simp: less_Suc_eq_le)

definition accepted_names :: "string list \<Rightarrow> string list" where
  "accepted_names parts =
     filter (\<lambda>n. n \<noteq> [] \<and> py_lower n \<notin> set placeholders)
       (map clean_name (filter (\<lambda>p. p \<noteq> []) (map py_strip parts)))"

definition occupant_candidates :: "py_value \<Rightarrow> string list" where
  "occupant_candidates v =
     (if pd_isna v \<or> \<not> isinstance_str v then []
      else (case occupants_match (py_strip (str_of v)) of
              None \<Rightarrow> []
            | Some g \<Rightarrow> accepted_names (occupant_parts (py_strip g))))"

definition tenant_candidates :: "py_value \<Rightarrow> string list" where
  "tenant_candidates v =
     (if pd_isna v \<or> \<not> isinstance_str v then []
      else (case tenants_match (py_strip (str_of v)) of
              None \<Rightarrow> []
            | Some g \<Rightarrow> accepted_names (tenant_parts (py_strip g))))"

definition acceptable :: "string \<Rightarrow> bool" where
  \<comment> \<open>what the loop guarantees of a name it appends\<close>
  "acceptable n \<longleftrightarrow> n \<noteq> [] \<and> \<not> py_isspace (hd n) \<and> py_lower n \<notin> set placeholders"

subsection \<open>Reading a pattern from left to right\<close>

text \<open>
  The section patterns are read here without the matcher, as functions that walk the
  text once. \<open>lit_rest f w s\<close> is the text after the word \<open>w\<close> when \<open>s\<close> starts with it;
  \<open>p_ws n\<close> skips a whitespace run of at least \<open>n\<close> characters; \<open>p_colon\<close> reads a colon.
  The theorems below prove that \<open>rmatch\<close> on the source's patterns computes exactly these
  readings.
\<close>

fun lit_rest :: "re_flags \<Rightarrow> string \<Rightarrow> string \<Rightarrow> string option" where
  "lit_rest f [] s = Some s"
| "lit_rest f (p # ps) [] = None"
| "lit_rest f (p # ps) (c # cs) = (if atom_ok f (Ch p) c then lit_rest f ps cs else None)"

definition same_word :: "re_flags \<Rightarrow> string \<Rightarrow> string \<Rightarrow> bool" where
  "same_word f w w' \<longleftrightarrow> list_all2 (\<lambda>p c. atom_ok f (Ch p) c) w w'"

definition p_ws :: "nat \<Rightarrow> string \<Rightarrow> string option" where
  "p_ws n s =
     (if n \<le> length (takeWhile py_isspace s) then Some (dropWhile py_isspace s) else None)"

definition p_colon :: "string \<Rightarrow> string option" where
  "p_colon s = (case s of [] \<Rightarrow> None | c # cs \<Rightarrow> if c = CHR '':'' then Some cs else None)"

definition colon_end :: "string \<Rightarrow> string option" where
  \<comment> \<open>\<^verbatim>\<open>\s*:\<close>\<close>
  "colon_end s = Option.bind (p_ws 0 s) p_colon"

definition tenants_label_end :: "string \<Rightarrow> string option" where
  \<comment> \<open>the text after \<^verbatim>\<open>Tenants\s+names\s*:\<close>, when the label stands at the start of \<open>s\<close>\<close>
  "tenants_label_end s =
     Option.bind (lit_rest section_flags ''Tenants'' s) (\<lambda>s.
     Option.bind (p_ws 1 s) (\<lambda>s.
     Option.bind (lit_rest section_flags ''names'' s) colon_end))"

definition total_area_label_end :: "string \<Rightarrow> string option" where
  \<comment> \<open>the text after \<^verbatim>\<open>Total Area\s*:\<close>\<close>
  "total_area_label_end s = Option.bind (lit_rest section_flags ''Total Area'' s) colon_end"

definition occupants_label_end :: "string \<Rightarrow> string option" where
  \<comment> \<open>the text after \<^verbatim>\<open>Occupants Names\s*:\<close>\<close>
  "occupants_label_end s =
     Option.bind (lit_rest section_flags ''Occupants Names'' s) colon_end"

definition occ_boundary :: "string \<Rightarrow> bool" where
  \<comment> \<open>where the look-ahead of the Occupants pattern succeeds: at one of the two labels,
      at seven dashes (nine begin with seven), or at the end of the text\<close>
  "occ_boundary s \<longleftrightarrow>
     tenants_label_end s \<noteq> None \<or> total_area_label_end s \<noteq> None \<or>
     lit_rest section_flags ''-------'' s \<noteq> None \<or>
     lit_rest section_flags ''---------'' s \<noteq> None \<or> s = []"

definition ten_boundary :: "string \<Rightarrow> bool" where
  \<comment> \<open>where the look-ahead of the Tenants pattern succeeds\<close>
  "ten_boundary s \<longleftrightarrow>
     total_area_label_end s \<noteq> None \<or>
     lit_rest section_flags ''-------'' s \<noteq> None \<or>
     lit_rest section_flags ''---------'' s \<noteq> None \<or> s = []"

fun until_boundary :: "(string \<Rightarrow> bool) \<Rightarrow> string \<Rightarrow> string" where
  \<comment> \<open>the characters before the first place where \<open>B\<close> holds of the rest\<close>
  "until_boundary B [] = []"
| "until_boundary B (c # cs) = (if B (c # cs) then [] else c # until_boundary B cs)"

definition section_body :: "(string \<Rightarrow> bool) \<Rightarrow> string \<Rightarrow> string option" where
  \<comment> \<open>\<^verbatim>\<open>\s*(.+?)(?=...)\<close> after the colon: the whitespace is skipped and the group takes
      one character and then runs to the next boundary; when only whitespace is left,
      the matcher backtracks and the group is the last whitespace character\<close>
  "section_body B s =
     (case dropWhile py_isspace s of
        [] \<Rightarrow> if s = [] then None else Some [last s]
      | c # cs \<Rightarrow> Some (c # until_boundary B cs))"

definition section_rest :: "(string \<Rightarrow> bool) \<Rightarrow> string \<Rightarrow> string" where
  \<comment> \<open>the text that follows the group of \<open>section_body\<close>\<close>
  "section_rest B s =
     (case dropWhile py_isspace s of
        [] \<Rightarrow> []
      | c # cs \<Rightarrow> drop (length (until_boundary B cs)) cs)"

fun find_suffix :: "(string \<Rightarrow> 'a option) \<Rightarrow> string \<Rightarrow> 'a option" where
  \<comment> \<open>the result at the leftmost start that has one\<close>
  "find_suffix H [] = H []"
| "find_suffix H (c # cs) = (case H (c # cs) of None \<Rightarrow> find_suffix H cs | Some x \<Rightarrow> Some x)"

definition occupants_section_at :: "string \<Rightarrow> string option" where
  "occupants_section_at s =
     (case occupants_label_end s of None \<Rightarrow> None | Some r \<Rightarrow> section_body occ_boundary r)"

definition tenants_section_at :: "string \<Rightarrow> string option" where
  "tenants_section_at s =
     (case tenants_label_end s of None \<Rightarrow> None | Some r \<Rightarrow> section_body ten_boundary r)"

definition occupants_found_at :: "string \<Rightarrow> (string \<times> string) option" where
  "occupants_found_at s =
     (case occupants_label_end s of
        None \<Rightarrow> None
      | Some r \<Rightarrow>
          map_option (\<lambda>sec. (sec, section_rest occ_boundary r)) (section_body occ_boundary r))"

definition tenants_found_at :: "string \<Rightarrow> (string \<times> string) option" where
  "tenants_found_at s =
     (case tenants_label_end s of
        None \<Rightarrow> None
      | Some r \<Rightarrow>
          map_option (\<lambda>sec. (sec, section_rest ten_boundary r)) (section_body ten_boundary r))"

subsection \<open>Auxiliary notions of the proofs\<close>

definition first_opt :: "'a list \<Rightarrow> 'a option" where
  "first_opt xs = (case xs of [] \<Rightarrow> None | x # _ \<Rightarrow> Some x)"

fun proper_tails :: "'a list \<Rightarrow> 'a list list" where
  "proper_tails [] = []"
| "proper_tails (c # cs) = cs # proper_tails cs"

fun ws_tails :: "string \<Rightarrow> string list" where
  \<comment> \<open>the text after 0, 1, ... characters of its leading whitespace\<close>
  "ws_tails [] = [[]]"
| "ws_tails (c # cs) = (c # cs) # (if py_isspace c then ws_tails cs else [])"

definition span_text :: "string \<times> span option \<Rightarrow> string" where
  "span_text x = (case snd x of None \<Rightarrow> [] | Some (s, e) \<Rightarrow> take (length s - length e) s)"

definition span_pair :: "string \<times> span option \<Rightarrow> string \<times> string" where
  "span_pair x = (span_text x, (case snd x of None \<Rightarrow> [] | Some (s, e) \<Rightarrow> e))"

definition det :: "re_flags \<Rightarrow> regex \<Rightarrow> (string \<Rightarrow> string option) \<Rightarrow> bool" where
  \<comment> \<open>the pattern matches in at most one way, and \<open>D\<close> computes the text left after it\<close>
  "det f r D \<longleftrightarrow>
     (\<forall>prev rest g. map snd (rmatch f r (prev, rest, g)) =
        (case D rest of None \<Rightarrow> [] | Some r' \<Rightarrow> [(r', g)]))"

definition group_outs :: "(string \<Rightarrow> bool) \<Rightarrow> string \<Rightarrow> (string \<times> span option) list" where
  "group_outs B rest = map (\<lambda>r'. (r', Some (rest, r'))) (filter B (proper_tails rest))"

definition section_outs :: "(string \<Rightarrow> bool) \<Rightarrow> string \<Rightarrow> (string \<times> span option) list" where
  "section_outs B s = concat (map (group_outs B) (rev (ws_tails s)))"

definition colon_section :: "regex \<Rightarrow> regex" where
  \<comment> \<open>\<^verbatim>\<open>\s*:\s*(.+?)(?=E)\<close>, the common tail of the two section patterns\<close>
  "colon_section E = Seq ws0 (Seq colon (Seq ws0 (Seq (Grp (Rep False 1 Dot)) (Look E))))"

subsection \<open>The specification's rule and the inputs of the scenarios\<close>

definition spec_rule_run :: "string \<Rightarrow> bool" where
  \<comment> \<open>The specification's words: a run of five or more dash or equals characters
      starts here.\<close>
  "spec_rule_run s \<longleftrightarrow> 5 \<le> length (takeWhile (\<lambda>c. c = CHR ''-'' \<or> c = CHR ''='') s)"

definition scenario_text :: string where
  "scenario_text =
     ''Occupants Names: 1). Jose Fernandes 2). %Maria Souza, Tenants names: nil Total Area: 500 sq m''"

definition repeated_text :: string where
  "repeated_text = ''Occupants Names: 1). A b 2). nil 3). A  b, 4). C''"

section \<open>Properties of the Record Reassembler\<close>

lemma reassemble_from_append:
  "reassemble_from st (xs @ ys) = reassemble_from (reassemble_from st xs) ys"
  by (simp add: reassemble_from_def)

lemma reassemble_from_even_inside:
  assumes "in_multiline_field st" and "\<forall>e \<in> set es. py_count e (CHR 0x22) mod 2 = 0"
  shows "in_multiline_field (reassemble_from st es) \<and>
         output_lines (reassemble_from st es) = output_lines st"
  using assms
proof (induction es arbitrary: st)
  case Nil
  then show ?case by (simp add: reassemble_from_def)
next
  case (Cons e es)
  let ?st1 = "reassemble_line st e"
  from Cons.prems have inside: "in_multiline_field ?st1"
    and same: "output_lines ?st1 = output_lines st"
    by (simp_all add: reassemble_line_def Let_def)
  from Cons.prems have "\<forall>x \<in> set es. py_count x (CHR 0x22) mod 2 = 0" by simp
  from Cons.IH[OF inside this] same show ?case
    by (simp add: reassemble_from_def)
qed

text \<open>
  C5. Starting outside a quoted field, a non-blank line with an even number of double
  quotes is emitted unchanged as one logical line, and two consecutive lines that each
  have an odd number of double quotes are emitted as exactly one logical line, the two
  joined by a single space. The lines before them (\<open>pre\<close>, any sequence after which the
  loop is outside a quoted field, the empty one included) leave their own output as it was.
\<close>

theorem reassemble_round_trip:
  assumes "\<not> in_multiline_field (reassemble_from reassembler_init pre)"
  shows "(py_count l (CHR 0x22) mod 2 = 0 \<and> py_strip l \<noteq> [] \<longrightarrow>
            reassemble (pre @ [l]) = reassemble pre @ [l]) \<and>
         (py_count a (CHR 0x22) mod 2 = 1 \<and> py_count b (CHR 0x22) mod 2 = 1 \<longrightarrow>
            reassemble (pre @ [a, b]) = reassemble pre @ [a @ '' '' @ b])"
  using assms
  by (simp add: reassemble_def reassemble_from_append)
     (simp add: reassemble_from_def reassemble_line_def Let_def)

theorem reassemble_round_trip_witness:
  "reassemble [''x,\"y\",z''] = [''x,\"y\",z''] \<and>
   reassemble [''x,\"one'', ''two\",z''] = [''x,\"one two\",z'']"
  using reassemble_round_trip[of "[]" "''x,\"y\",z''" "''x,\"one''" "''two\",z''"]
  by (simp add: reassemble_def reassemble_from_def reassembler_init_def py_count_def
      py_strip_def py_isspace_def)

text \<open>
  C6. When the input ends inside a quoted field (after \<open>pre\<close>, which ends outside, a line
  \<open>a\<close> with an odd number of double quotes opens a field and every later line \<open>es\<close> has an
  even number), the accumulated lines are not written: the output is the output of \<open>pre\<close>.
\<close>

theorem reassemble_drops_open_record:
  assumes "\<not> in_multiline_field (reassemble_from reassembler_init pre)"
    and "py_count a (CHR 0x22) mod 2 = 1"
    and "\<forall>e \<in> set es. py_count e (CHR 0x22) mod 2 = 0"
  shows "reassemble (pre @ a # es) = reassemble pre \<and>
         in_multiline_field (reassemble_from reassembler_init (pre @ a # es)) \<and>
         multiline_content (reassemble_from reassembler_init (pre @ a # es)) = a # es"
proof -
  let ?st0 = "reassemble_from reassembler_init pre"
  let ?st1 = "reassemble_line ?st0 a"
  have split: "reassemble_from reassembler_init (pre @ a # es) = reassemble_from ?st1 es"
    by (simp add: reassemble_from_def)
  from assms(1,2) have inside: "in_multiline_field ?st1"
    and out: "output_lines ?st1 = output_lines ?st0"
    and mc: "multiline_content ?st1 = [a]"
    by (simp_all add: reassemble_line_def Let_def)
  have content: "in_multiline_field st \<Longrightarrow> \<forall>e \<in> set xs. py_count e (CHR 0x22) mod 2 = 0 \<Longrightarrow>
      multiline_content (reassemble_from st xs) = multiline_content st @ xs" for st xs
  proof (induction xs arbitrary: st)
    case Nil
    then show ?case by (simp add: reassemble_from_def)
  next
    case (Cons x xs)
    let ?s = "reassemble_line st x"
    from Cons.prems have i: "in_multiline_field ?s"
      and m: "multiline_content ?s = multiline_content st @ [x]"
      by (simp_all add: reassemble_line_def Let_def)
    from Cons.prems have "\<forall>e \<in> set xs. py_count e (CHR 0x22) mod 2 = 0" by simp
    from Cons.IH[OF i this] m show ?case by (simp add: reassemble_from_def)
  qed
  from reassemble_from_even_inside[OF inside assms(3)] out content[OF inside assms(3)] mc split
  show ?thesis by (simp add: reassemble_def)
qed

theorem reassemble_drops_open_record_witness:
  "reassemble [''p,q'', ''x,\"one'', ''two''] = [''p,q'']"
  using reassemble_drops_open_record[of "[''p,q'']" "''x,\"one''" "[''two'']"]
  by (simp add: reassemble_def reassemble_from_def reassembler_init_def reassemble_line_def
      py_count_def py_strip_def py_isspace_def)

section \<open>The matcher on the section patterns\<close>

text \<open>
  The lemmas of this section show that the first match of each section pattern, as
  \<open>rmatch\<close> and \<open>search_from\<close> compute it, is the left-to-right reading defined above.
  A state's first component (the previous character) plays no part in these patterns, so
  the lemmas speak of the remaining text and the group only.
\<close>

lemma lit_snd:
  "map snd (rmatch f (lit w) (prev, rest, g)) =
     (case lit_rest f w rest of None \<Rightarrow> [] | Some r \<Rightarrow> [(r, g)])"
proof (induction w arbitrary: prev rest)
  case Nil
  then show ?case by simp
next
  case (Cons p ps)
  show ?case
  proof (cases rest)
    case Nil
    then show ?thesis by simp
  next
    case (Cons c cs)
    with Cons.IH[of "Some c" cs] show ?thesis by (simp del: atom_ok.simps)
  qed
qed

lemma lit_matches_iff:
  "rmatch f (lit w) (prev, rest, g) \<noteq> [] \<longleftrightarrow> lit_rest f w rest \<noteq> None"
proof -
  have "rmatch f (lit w) (prev, rest, g) \<noteq> [] \<longleftrightarrow> map snd (rmatch f (lit w) (prev, rest, g)) \<noteq> []"
    by simp
  also have "\<dots> \<longleftrightarrow> lit_rest f w rest \<noteq> None"
    by (simp only: lit_snd) (simp split: option.split)
  finally show ?thesis .
qed

lemma lit_rest_same_word: "same_word f w w' \<Longrightarrow> lit_rest f w (w' @ post) = Some post"
  unfolding same_word_def
  by (induction w w' rule: list_all2_induct) simp_all

lemma group1_span_text: "group1 m = span_text (snd m)"
  by (simp add: group1_def span_text_def)

lemma py_isspace_lower: "py_isspace c \<Longrightarrow> py_lower_char c = c"
  by (auto simp: py_isspace_def py_lower_char_def)

lemma of_char_lower_range:
  "py_lower_char c \<noteq> c \<Longrightarrow> 97 \<le> (of_char (py_lower_char c) :: nat)"
  by (auto simp: py_lower_char_def Let_def split: if_splits)

lemma lower_colon: "py_lower_char c = CHR '':'' \<longleftrightarrow> c = CHR '':''"
proof
  assume a: "py_lower_char c = CHR '':''"
  show "c = CHR '':''"
  proof (rule ccontr)
    assume "c \<noteq> CHR '':''"
    with a have "py_lower_char c \<noteq> c" by simp
    from of_char_lower_range[OF this] a show False by simp
  qed
next
  assume "c = CHR '':''"
  then show "py_lower_char c = CHR '':''" by (simp add: py_lower_char_def)
qed

lemma atom_colon: "atom_ok section_flags (Ch CHR '':'') c \<longleftrightarrow> c = CHR '':''"
proof -
  have l: "py_lower_char CHR '':'' = CHR '':''" by (simp add: py_lower_char_def)
  show ?thesis by (simp add: section_flags_def l lower_colon)
qed

lemma det_lit: "det f (lit w) (lit_rest f w)"
  unfolding det_def by (simp only: lit_snd) simp

lemma det_colon: "det section_flags colon p_colon"
  unfolding det_def colon_def p_colon_def
  by (auto simp: atom_colon simp del: atom_ok.simps split: list.split)

lemma seq_snd:
  assumes "\<And>prev rest g. map snd (rmatch f b (prev, rest, g)) = F rest g"
  shows "map snd (rmatch f (Seq a b) st) =
         concat (map (\<lambda>(rest, g). F rest g) (map snd (rmatch f a st)))"
proof -
  have "map snd (rmatch f b m) = (\<lambda>(rest, g). F rest g) (snd m)" for m
    using assms[of "fst m" "fst (snd m)" "snd (snd m)"] by (simp add: split_def)
  then show ?thesis by (simp add: map_concat comp_def)
qed

lemma det_seq:
  assumes "det f a Da" and "det f b Db"
  shows "det f (Seq a b) (\<lambda>s. Option.bind (Da s) Db)"
proof -
  have b: "map snd (rmatch f b (prev, rest, g)) =
        (case Db rest of None \<Rightarrow> [] | Some r' \<Rightarrow> [(r', g)])" for prev rest g
    using assms(2) by (simp add: det_def)
  show ?thesis
    unfolding det_def
  proof (intro allI)
    fix prev rest g
    have "map snd (rmatch f a (prev, rest, g)) =
        (case Da rest of None \<Rightarrow> [] | Some r' \<Rightarrow> [(r', g)])"
      using assms(1) by (simp add: det_def)
    then show "map snd (rmatch f (Seq a b) (prev, rest, g)) =
        (case Option.bind (Da rest) Db of None \<Rightarrow> [] | Some r' \<Rightarrow> [(r', g)])"
      by (simp only: seq_snd[of f b "\<lambda>rest g. (case Db rest of None \<Rightarrow> [] | Some r' \<Rightarrow> [(r', g)])", OF b])
         (simp split: option.split)
  qed
qed

lemma rep_states_rejecting:
  assumes "\<And>c cs. P c \<Longrightarrow> H (c # cs) = []"
  shows "concat (map (\<lambda>(prev, rest). H rest) (rev (rep_states P n prev rest))) =
         (if n \<le> length (takeWhile P rest) then H (dropWhile P rest) else [])"
proof (induction rest arbitrary: n prev)
  case Nil
  then show ?case by simp
next
  case (Cons c cs)
  show ?case
  proof (cases "P c")
    case True
    with Cons[of "n - 1" "Some c"] assms[OF True, of cs] show ?thesis
      by (cases n) auto
  next
    case False
    then show ?thesis by simp
  qed
qed

lemma atom_ok_Space: "atom_ok f Space = py_isspace"
  by (rule ext) simp

lemma ws_then:
  assumes F: "\<And>prev r g. map snd (rmatch f b (prev, r, g)) = F r g"
    and rej: "\<And>c cs g. py_isspace c \<Longrightarrow> F (c # cs) g = []"
  shows "map snd (rmatch f (Seq (Rep True n Space) b) (prev, rest, g)) =
         (if n \<le> length (takeWhile py_isspace rest) then F (dropWhile py_isspace rest) g else [])"
proof -
  have "map snd (rmatch f (Seq (Rep True n Space) b) (prev, rest, g)) =
        concat (map (\<lambda>(rest, g). F rest g) (map snd (rmatch f (Rep True n Space) (prev, rest, g))))"
    by (rule seq_snd[OF F])
  also have "\<dots> = concat (map (\<lambda>(p, r). F r g) (rev (rep_states py_isspace n prev rest)))"
    by (simp add: comp_def split_def rev_map atom_ok_Space)
  also have "\<dots> = (if n \<le> length (takeWhile py_isspace rest) then F (dropWhile py_isspace rest) g else [])"
    by (rule rep_states_rejecting) (rule rej)
  finally show ?thesis .
qed

lemma det_ws_then:
  assumes "det f b D" and "\<And>c cs. py_isspace c \<Longrightarrow> D (c # cs) = None"
  shows "det f (Seq (Rep True n Space) b) (\<lambda>s. Option.bind (p_ws n s) D)"
proof -
  have F: "map snd (rmatch f b (prev, r, g)) = (case D r of None \<Rightarrow> [] | Some r' \<Rightarrow> [(r', g)])"
    for prev r g using assms(1) by (simp add: det_def)
  have rej: "py_isspace c \<Longrightarrow> (case D (c # cs) of None \<Rightarrow> [] | Some r' \<Rightarrow> [(r', g)]) = []"
    for c cs and g :: "span option" by (simp add: assms(2))
  show ?thesis
    unfolding det_def
  proof (intro allI)
    fix prev rest g
    show "map snd (rmatch f (Seq (Rep True n Space) b) (prev, rest, g)) =
        (case Option.bind (p_ws n rest) D of None \<Rightarrow> [] | Some r' \<Rightarrow> [(r', g)])"
      using ws_then[of f b "\<lambda>r g. (case D r of None \<Rightarrow> [] | Some r' \<Rightarrow> [(r', g)])" n prev rest g,
          OF F rej]
      by (simp add: p_ws_def)
  qed
qed

lemma det_matches_iff:
  assumes "det f r D"
  shows "rmatch f r (prev, s, g) \<noteq> [] \<longleftrightarrow> D s \<noteq> None"
proof -
  have "rmatch f r (prev, s, g) \<noteq> [] \<longleftrightarrow> map snd (rmatch f r (prev, s, g)) \<noteq> []" by simp
  also have "\<dots> \<longleftrightarrow> D s \<noteq> None"
    using assms unfolding det_def by (simp split: option.split)
  finally show ?thesis .
qed

lemma space_not_colon: "py_isspace c \<Longrightarrow> p_colon (c # cs) = None"
  by (auto simp: p_colon_def py_isspace_def)

lemma det_colon_end: "det section_flags (Seq ws0 colon) colon_end"
proof -
  have "det section_flags (Seq (Rep True 0 Space) colon) (\<lambda>s. Option.bind (p_ws 0 s) p_colon)"
    by (rule det_ws_then[OF det_colon]) (rule space_not_colon)
  then show ?thesis by (simp add: ws0_def colon_end_def[abs_def])
qed

lemma space_not_atom:
  assumes "py_isspace c" and "\<not> py_isspace (py_lower_char p)"
  shows "\<not> atom_ok section_flags (Ch p) c"
  using assms py_isspace_lower[OF assms(1)] by (auto simp: section_flags_def)

lemma space_not_lit:
  assumes "py_isspace c" and "\<not> py_isspace (py_lower_char p)"
  shows "lit_rest section_flags (p # ps) (c # cs) = None"
  using space_not_atom[OF assms] by (simp del: atom_ok.simps)

lemma lower_n: "py_lower_char CHR ''n'' = CHR ''n''"
  by (simp add: py_lower_char_def)

lemma det_tenants_label: "det section_flags tenants_label tenants_label_end"
proof -
  let ?D1 = "\<lambda>s. Option.bind (lit_rest section_flags ''names'' s) colon_end"
  have d1: "det section_flags (Seq (lit ''names'') (Seq ws0 colon)) ?D1"
    by (rule det_seq[OF det_lit det_colon_end])
  have rej: "py_isspace c \<Longrightarrow> ?D1 (c # cs) = None" for c cs
    using space_not_lit[of c "CHR ''n''" "''ames''" cs]
    by (simp add: lower_n py_isspace_def del: lit_rest.simps)
  have d2: "det section_flags (Seq (Rep True 1 Space) (Seq (lit ''names'') (Seq ws0 colon)))
              (\<lambda>s. Option.bind (p_ws 1 s) ?D1)"
    by (rule det_ws_then[OF d1]) (rule rej)
  have "det section_flags (Seq (lit ''Tenants'') (Seq (Rep True 1 Space) (Seq (lit ''names'') (Seq ws0 colon))))
          (\<lambda>s. Option.bind (lit_rest section_flags ''Tenants'' s) (\<lambda>s. Option.bind (p_ws 1 s) ?D1))"
    by (rule det_seq[OF det_lit d2])
  then show ?thesis
    by (simp add: tenants_label_def ws1_def tenants_label_end_def[abs_def] del: lit.simps)
qed

lemma det_total_area_label: "det section_flags total_area_label total_area_label_end"
proof -
  have "det section_flags (Seq (lit ''Total Area'') (Seq ws0 colon))
          (\<lambda>s. Option.bind (lit_rest section_flags ''Total Area'' s) colon_end)"
    by (rule det_seq[OF det_lit det_colon_end])
  then show ?thesis
    by (simp add: total_area_label_def total_area_label_end_def[abs_def] del: lit.simps)
qed

lemma EndZ_matches_iff: "rmatch f EndZ (prev, s, g) \<noteq> [] \<longleftrightarrow> s = []"
  by simp

lemma occupants_end_iff:
  "rmatch section_flags occupants_end (prev, s, g) \<noteq> [] \<longleftrightarrow> occ_boundary s"
  unfolding occupants_end_def occ_boundary_def
  by (simp only: alts.simps rmatch.simps(4) append_is_Nil_conv de_Morgan_conj
       det_matches_iff[OF det_tenants_label] det_matches_iff[OF det_total_area_label]
       lit_matches_iff EndZ_matches_iff)

lemma tenants_end_iff:
  "rmatch section_flags tenants_end (prev, s, g) \<noteq> [] \<longleftrightarrow> ten_boundary s"
  unfolding tenants_end_def ten_boundary_def
  by (simp only: alts.simps rmatch.simps(4) append_is_Nil_conv de_Morgan_conj
       det_matches_iff[OF det_total_area_label] lit_matches_iff EndZ_matches_iff)

lemma rep_states_any0:
  "(\<And>c. P c) \<Longrightarrow> map snd (rep_states P 0 prev rest) = rest # proper_tails rest"
  by (induction rest arbitrary: prev) simp_all

lemma rep_states_any1:
  "(\<And>c. P c) \<Longrightarrow> map snd (rep_states P (Suc 0) prev rest) = proper_tails rest"
  by (cases rest) (simp_all add: rep_states_any0)

lemma rep_states_ws0: "map snd (rep_states py_isspace 0 prev rest) = ws_tails rest"
  by (induction rest arbitrary: prev) simp_all

lemma concat_if_filter:
  "concat (map (\<lambda>x. if Q (snd x) then [h (snd x)] else []) xs) = map h (filter Q (map snd xs))"
  by (induction xs) simp_all

lemma group_tail:
  assumes d: "dotall f" and B: "\<And>prev s g. rmatch f E (prev, s, g) \<noteq> [] \<longleftrightarrow> B s"
  shows "map snd (rmatch f (Seq (Grp (Rep False 1 Dot)) (Look E)) (prev, rest, g)) =
         group_outs B rest"
proof -
  let ?states = "rep_states (atom_ok f Dot) (Suc 0) prev rest"
  have any: "atom_ok f Dot c" for c using d by simp
  have g: "rmatch f (Grp (Rep False 1 Dot)) (prev, rest, g) =
        map (\<lambda>x. (fst x, snd x, Some (rest, snd x))) ?states"
    by (simp add: comp_def split_def)
  have look: "map snd (rmatch f (Look E) (p, r, h)) = (if B r then [(r, h)] else [])" for p r h
    using B[of p r h] by auto
  have "map snd (rmatch f (Seq (Grp (Rep False 1 Dot)) (Look E)) (prev, rest, g)) =
        concat (map (\<lambda>x. map snd (rmatch f (Look E) (fst x, snd x, Some (rest, snd x)))) ?states)"
    by (simp only: rmatch.simps(3) g) (simp add: map_concat comp_def)
  also have "\<dots> = concat (map (\<lambda>x. if B (snd x) then [(snd x, Some (rest, snd x))] else []) ?states)"
    by (simp only: look)
  also have "\<dots> = map (\<lambda>r'. (r', Some (rest, r'))) (filter B (map snd ?states))"
    by (rule concat_if_filter)
  also have "map snd ?states = proper_tails rest"
    by (rule rep_states_any1) (rule any)
  finally show ?thesis by (simp add: group_outs_def)
qed

lemma ws0_then:
  assumes F: "\<And>prev r g. map snd (rmatch f b (prev, r, g)) = F r"
  shows "map snd (rmatch f (Seq ws0 b) (prev, rest, g)) = concat (map F (rev (ws_tails rest)))"
proof -
  have "map snd (rmatch f ws0 (prev, rest, g)) =
        map (\<lambda>s. (s, g)) (rev (map snd (rep_states py_isspace 0 prev rest)))"
    by (simp add: ws0_def comp_def split_def rev_map atom_ok_Space)
  then have w: "map snd (rmatch f ws0 (prev, rest, g)) = map (\<lambda>s. (s, g)) (rev (ws_tails rest))"
    by (simp only: rep_states_ws0)
  have "map snd (rmatch f (Seq ws0 b) (prev, rest, g)) =
        concat (map (\<lambda>(r, g). F r) (map snd (rmatch f ws0 (prev, rest, g))))"
    by (rule seq_snd) (rule F)
  then show ?thesis by (simp only: w) (simp add: comp_def)
qed

lemma colon_section_outs:
  assumes B: "\<And>prev s g. rmatch section_flags E (prev, s, g) \<noteq> [] \<longleftrightarrow> B s"
  shows "map snd (rmatch section_flags (colon_section E) (prev, rest, g)) =
         (case colon_end rest of None \<Rightarrow> [] | Some r \<Rightarrow> section_outs B r)"
proof -
  let ?T = "Seq (Grp (Rep False 1 Dot)) (Look E)"
  have t: "map snd (rmatch section_flags ?T (prev, r, g)) = group_outs B r" for prev r g
    by (rule group_tail[OF _ B]) (simp add: section_flags_def)
  have y: "map snd (rmatch section_flags (Seq ws0 ?T) (prev, r, g)) = section_outs B r" for prev r g
    unfolding section_outs_def by (rule ws0_then) (rule t)
  have c: "map snd (rmatch section_flags colon (prev, r, g)) =
           (case p_colon r of None \<Rightarrow> [] | Some r' \<Rightarrow> [(r', g)])" for prev r g
    using det_colon by (simp add: det_def)
  have x: "map snd (rmatch section_flags (Seq colon (Seq ws0 ?T)) (prev, r, g)) =
           (case p_colon r of None \<Rightarrow> [] | Some r' \<Rightarrow> section_outs B r')" for prev r g
    by (simp only: seq_snd[of section_flags "Seq ws0 ?T" "\<lambda>r g. section_outs B r", OF y] c)
       (simp split: option.split)
  have rej: "py_isspace c \<Longrightarrow> (case p_colon (c # cs) of None \<Rightarrow> [] | Some r' \<Rightarrow> section_outs B r') = []"
    for c cs by (simp add: space_not_colon)
  have "map snd (rmatch section_flags (Seq (Rep True 0 Space) (Seq colon (Seq ws0 ?T))) (prev, rest, g)) =
        (if 0 \<le> length (takeWhile py_isspace rest)
         then (case p_colon (dropWhile py_isspace rest) of None \<Rightarrow> [] | Some r' \<Rightarrow> section_outs B r')
         else [])"
    by (rule ws_then[of section_flags "Seq colon (Seq ws0 ?T)"
          "\<lambda>r g. (case p_colon r of None \<Rightarrow> [] | Some r' \<Rightarrow> section_outs B r')", OF x rej])
  then show ?thesis
    by (simp add: colon_section_def ws0_def colon_end_def p_ws_def)
qed

lemma first_opt_append:
  "first_opt (xs @ ys) = (case first_opt xs of None \<Rightarrow> first_opt ys | Some x \<Rightarrow> Some x)"
  by (cases xs) (simp_all add: first_opt_def)

lemma first_opt_Nil: "first_opt [] = None"
  by (simp add: first_opt_def)

lemma first_opt_map: "first_opt (map h xs) = map_option h (first_opt xs)"
  by (cases xs) (simp_all add: first_opt_def)

lemma tails_first:
  assumes "B []"
  shows "\<exists>r' rs. filter B (cs # proper_tails cs) = r' # rs \<and> until_boundary B cs @ r' = cs"
proof (induction cs)
  case Nil
  then show ?case using assms by simp
next
  case (Cons d ds)
  then show ?case by (cases "B (d # ds)") auto
qed

lemma group_outs_first:
  assumes "B []"
  shows "map_option span_text (first_opt (group_outs B (c # cs))) = Some (c # until_boundary B cs)"
proof -
  from tails_first[where B=B and cs=cs] assms obtain r' rs
    where f: "filter B (cs # proper_tails cs) = r' # rs" and u: "until_boundary B cs @ r' = cs"
    by blast
  have "length cs = length (until_boundary B cs) + length r'"
    using arg_cong[OF u, of length] by simp
  then have "take (Suc (length cs) - length r') (c # cs) = c # until_boundary B cs"
    using u by (metis Suc_diff_le add_diff_cancel_right' append_eq_conv_conj le_add2 take_Suc_Cons)
  with f show ?thesis
    by (simp add: group_outs_def first_opt_def span_text_def del: filter.simps)
qed

lemma group_outs_Nil: "group_outs B [] = []"
  by (simp add: group_outs_def)

lemma first_after_spaces:
  assumes "h [] = []" and "\<And>c cs. h (c # cs) \<noteq> []"
  shows "first_opt (concat (map h (rev (ws_tails s)))) =
         (case dropWhile py_isspace s of
            [] \<Rightarrow> if s = [] then None else first_opt (h [last s])
          | b # bs \<Rightarrow> first_opt (h (b # bs)))"
proof (induction s)
  case Nil
  then show ?case by (simp add: assms(1) first_opt_def)
next
  case (Cons c cs)
  have some: "\<exists>y. first_opt (h (x # xs)) = Some y" for x xs
    using assms(2)[of x xs] by (cases "h (x # xs)") (simp_all add: first_opt_def)
  show ?case
  proof (cases "py_isspace c")
    case False
    then show ?thesis by (simp add: first_opt_def)
  next
    case True
    then have step: "first_opt (concat (map h (rev (ws_tails (c # cs))))) =
        (case first_opt (concat (map h (rev (ws_tails cs)))) of
           None \<Rightarrow> first_opt (h (c # cs)) | Some x \<Rightarrow> Some x)"
      by (simp add: first_opt_append)
    show ?thesis
    proof (cases "dropWhile py_isspace cs")
      case Nil
      show ?thesis
      proof (cases cs)
        case Nil
        then show ?thesis using True step Cons.IH by simp
      next
        case (Cons d ds)
        from some[of "last cs" "[]"] obtain y where y: "first_opt (h [last cs]) = Some y" by blast
        from Cons \<open>dropWhile py_isspace cs = []\<close> True step Cons.IH y show ?thesis
          by simp
      qed
    next
      case (Cons b bs)
      from some[of b bs] obtain y where "first_opt (h (b # bs)) = Some y" by blast
      with Cons True step Cons.IH show ?thesis by simp
    qed
  qed
qed

lemma section_outs_first:
  assumes "B []"
  shows "map_option span_text (first_opt (section_outs B s)) = section_body B s"
proof -
  have gf: "map_option span_text (first_opt (group_outs B (c # cs))) = Some (c # until_boundary B cs)"
    for c cs using group_outs_first[where B=B and c=c and cs=cs] assms by simp
  have ne: "group_outs B (c # cs) \<noteq> []" for c cs
    using gf[of c cs] by (auto simp: first_opt_def)
  have "first_opt (section_outs B s) =
        (case dropWhile py_isspace s of
            [] \<Rightarrow> if s = [] then None else first_opt (group_outs B [last s])
          | b # bs \<Rightarrow> first_opt (group_outs B (b # bs)))"
    unfolding section_outs_def by (rule first_after_spaces[OF group_outs_Nil ne])
  then show ?thesis
  proof (cases "dropWhile py_isspace s")
    case Nil
    assume f: "first_opt (section_outs B s) =
        (case dropWhile py_isspace s of
            [] \<Rightarrow> if s = [] then None else first_opt (group_outs B [last s])
          | b # bs \<Rightarrow> first_opt (group_outs B (b # bs)))"
    show ?thesis
    proof (cases "s = []")
      case True
      with Nil f show ?thesis by (simp add: section_body_def del: dropWhile_eq_Nil_conv)
    next
      case False
      with Nil f gf[of "last s" "[]"] show ?thesis
        by (simp add: section_body_def del: dropWhile_eq_Nil_conv)
    qed
  next
    case (Cons b bs)
    assume f: "first_opt (section_outs B s) =
        (case dropWhile py_isspace s of
            [] \<Rightarrow> if s = [] then None else first_opt (group_outs B [last s])
          | b # bs \<Rightarrow> first_opt (group_outs B (b # bs)))"
    with Cons gf[of b bs] show ?thesis by (simp add: section_body_def)
  qed
qed

lemma occupants_re_outs:
  "map snd (rmatch section_flags occupants_re (prev, rest, g)) =
     (case occupants_label_end rest of None \<Rightarrow> [] | Some r \<Rightarrow> section_outs occ_boundary r)"
proof -
  let ?F = "\<lambda>r (g :: span option). (case colon_end r of None \<Rightarrow> [] | Some r' \<Rightarrow> section_outs occ_boundary r')"
  have cs: "map snd (rmatch section_flags (colon_section occupants_end) (prev, r, g)) = ?F r g"
    for prev r g by (rule colon_section_outs) (rule occupants_end_iff)
  have re: "occupants_re = Seq (lit ''Occupants Names'') (colon_section occupants_end)"
    by (simp add: occupants_re_def colon_section_def del: lit.simps)
  show ?thesis
    unfolding re
    by (simp only: seq_snd[of section_flags "colon_section occupants_end" ?F, OF cs] lit_snd)
       (simp add: occupants_label_end_def split: option.split)
qed

lemma tenants_re_outs:
  "map snd (rmatch section_flags tenants_re (prev, rest, g)) =
     (case tenants_label_end rest of None \<Rightarrow> [] | Some r \<Rightarrow> section_outs ten_boundary r)"
proof -
  let ?F = "\<lambda>r (g :: span option). (case colon_end r of None \<Rightarrow> [] | Some r' \<Rightarrow> section_outs ten_boundary r')"
  let ?G = "\<lambda>r (g :: span option). (case lit_rest section_flags ''names'' r of None \<Rightarrow> [] | Some r' \<Rightarrow> ?F r' g)"
  have cs: "map snd (rmatch section_flags (colon_section tenants_end) (prev, r, g)) = ?F r g"
    for prev r g by (rule colon_section_outs) (rule tenants_end_iff)
  have n: "map snd (rmatch section_flags (Seq (lit ''names'') (colon_section tenants_end)) (prev, r, g)) = ?G r g"
    for prev r g
    by (simp only: seq_snd[of section_flags "colon_section tenants_end" ?F, OF cs] lit_snd)
       (simp split: option.split)
  have rej: "py_isspace c \<Longrightarrow> ?G (c # cs) g = []" for c cs g
    using space_not_lit[of c "CHR ''n''" "''ames''" cs]
    by (simp add: lower_n py_isspace_def del: lit_rest.simps)
  have w: "map snd (rmatch section_flags (Seq (Rep True 1 Space) (Seq (lit ''names'') (colon_section tenants_end))) (prev, r, g)) =
        (if 1 \<le> length (takeWhile py_isspace r) then ?G (dropWhile py_isspace r) g else [])"
    for prev r g
    by (rule ws_then[of section_flags "Seq (lit ''names'') (colon_section tenants_end)" ?G, OF n rej])
  have re: "tenants_re = Seq (lit ''Tenants'') (Seq (Rep True 1 Space) (Seq (lit ''names'') (colon_section tenants_end)))"
    by (simp add: tenants_re_def colon_section_def ws1_def del: lit.simps)
  show ?thesis
    unfolding re
    by (simp only: seq_snd[of section_flags "Seq (Rep True 1 Space) (Seq (lit ''names'') (colon_section tenants_end))"
          "\<lambda>r g. (if 1 \<le> length (takeWhile py_isspace r) then ?G (dropWhile py_isspace r) g else [])", OF w] lit_snd)
       (simp add: tenants_label_end_def p_ws_def split: option.split)
qed

lemma search_first_suffix:
  assumes "\<And>prev rest. map_option span_text (first_opt (map snd (rmatch f r (prev, rest, None)))) = H rest"
  shows "map_option group1 (search_from f r prev s) = find_suffix H s"
proof (induction s arbitrary: prev)
  case Nil
  show ?case
    using assms[of prev "[]"]
    by (cases "rmatch f r (prev, [], None)") (simp_all add: first_opt_def group1_span_text)
next
  case (Cons c cs)
  show ?case
  proof (cases "rmatch f r (prev, c # cs, None)")
    case Nil
    with assms[of prev "c # cs"] have "H (c # cs) = None" by (simp add: first_opt_def)
    with Nil Cons[of "Some c"] show ?thesis by simp
  next
    case (Cons m ms)
    with assms[of prev "c # cs"] have "H (c # cs) = Some (group1 m)"
      by (simp add: first_opt_def group1_span_text)
    with Cons show ?thesis by simp
  qed
qed

lemma occ_boundary_Nil: "occ_boundary []" by (simp add: occ_boundary_def)

lemma ten_boundary_Nil: "ten_boundary []" by (simp add: ten_boundary_def)

text \<open>
  The two searches of the source, computed without backtracking.
\<close>

lemma occupants_match_direct: "occupants_match s = find_suffix occupants_section_at s"
  unfolding occupants_match_def re_search_def
proof (rule search_first_suffix)
  fix prev rest
  show "map_option span_text (first_opt (map snd (rmatch section_flags occupants_re (prev, rest, None)))) =
        occupants_section_at rest"
    by (cases "occupants_label_end rest")
       (simp_all add: occupants_re_outs occupants_section_at_def first_opt_Nil
          section_outs_first[where B=occ_boundary] occ_boundary_Nil)
qed

lemma tenants_match_direct: "tenants_match s = find_suffix tenants_section_at s"
  unfolding tenants_match_def re_search_def
proof (rule search_first_suffix)
  fix prev rest
  show "map_option span_text (first_opt (map snd (rmatch section_flags tenants_re (prev, rest, None)))) =
        tenants_section_at rest"
    by (cases "tenants_label_end rest")
       (simp_all add: tenants_re_outs tenants_section_at_def first_opt_Nil
          section_outs_first[where B=ten_boundary] ten_boundary_Nil)
qed

text \<open>
  The same for the searches that keep the text after the group.
\<close>

lemma found_span_pair: "(group1 m, after_group1 m) = span_pair (snd m)"
  by (simp add: group1_def after_group1_def span_pair_def span_text_def)

lemma occupants_match_found: "occupants_match s = map_option fst (occupants_found s)"
  by (simp add: occupants_match_def occupants_found_def option.map_comp comp_def)

lemma tenants_match_found: "tenants_match s = map_option fst (tenants_found s)"
  by (simp add: tenants_match_def tenants_found_def option.map_comp comp_def)

lemma group_outs_first_pair:
  assumes "B []"
  shows "map_option span_pair (first_opt (group_outs B (c # cs))) =
         Some (c # until_boundary B cs, drop (length (until_boundary B cs)) cs)"
proof -
  from tails_first[where B=B and cs=cs] assms obtain r' rs
    where f: "filter B (cs # proper_tails cs) = r' # rs" and u: "until_boundary B cs @ r' = cs"
    by blast
  have r': "r' = drop (length (until_boundary B cs)) cs"
    using u by (metis append_eq_conv_conj)
  have "length cs = length (until_boundary B cs) + length r'"
    using arg_cong[OF u, of length] by simp
  then have "take (Suc (length cs) - length r') (c # cs) = c # until_boundary B cs"
    using u by (metis Suc_diff_le add_diff_cancel_right' append_eq_conv_conj le_add2 take_Suc_Cons)
  with f r' show ?thesis
    by (simp add: group_outs_def first_opt_def span_pair_def span_text_def del: filter.simps)
qed

lemma section_outs_first_pair:
  assumes "B []"
  shows "map_option span_pair (first_opt (section_outs B s)) =
         map_option (\<lambda>sec. (sec, section_rest B s)) (section_body B s)"
proof -
  have gf: "map_option span_pair (first_opt (group_outs B (c # cs))) =
        Some (c # until_boundary B cs, drop (length (until_boundary B cs)) cs)"
    for c cs using group_outs_first_pair[where B=B and c=c and cs=cs] assms by simp
  have ne: "group_outs B (c # cs) \<noteq> []" for c cs
    using gf[of c cs] by (auto simp: first_opt_def)
  have f: "first_opt (section_outs B s) =
        (case dropWhile py_isspace s of
            [] \<Rightarrow> if s = [] then None else first_opt (group_outs B [last s])
          | b # bs \<Rightarrow> first_opt (group_outs B (b # bs)))"
    unfolding section_outs_def by (rule first_after_spaces[OF group_outs_Nil ne])
  show ?thesis
  proof (cases "dropWhile py_isspace s")
    case Nil
    show ?thesis
    proof (cases "s = []")
      case True
      with Nil f show ?thesis by (simp add: section_body_def del: dropWhile_eq_Nil_conv)
    next
      case False
      with Nil f gf[of "last s" "[]"] show ?thesis
        by (simp add: section_body_def section_rest_def del: dropWhile_eq_Nil_conv)
    qed
  next
    case (Cons b bs)
    with f gf[of b bs] show ?thesis by (simp add: section_body_def section_rest_def)
  qed
qed

lemma search_first_suffix_gen:
  assumes "\<And>prev rest. map_option G (first_opt (map snd (rmatch f r (prev, rest, None)))) = H rest"
  shows "map_option (\<lambda>m. G (snd m)) (search_from f r prev s) = find_suffix H s"
proof (induction s arbitrary: prev)
  case Nil
  show ?case
    using assms[of prev "[]"]
    by (cases "rmatch f r (prev, [], None)") (simp_all add: first_opt_def)
next
  case (Cons c cs)
  show ?case
  proof (cases "rmatch f r (prev, c # cs, None)")
    case Nil
    with assms[of prev "c # cs"] have "H (c # cs) = None" by (simp add: first_opt_def)
    with Nil Cons[of "Some c"] show ?thesis by simp
  next
    case (Cons m ms)
    with assms[of prev "c # cs"] have "H (c # cs) = Some (G (snd m))"
      by (simp add: first_opt_def)
    with Cons show ?thesis by simp
  qed
qed

lemma occupants_found_direct: "occupants_found s = find_suffix occupants_found_at s"
  unfolding occupants_found_def re_search_def found_span_pair
proof (rule search_first_suffix_gen)
  fix prev rest
  show "map_option span_pair (first_opt (map snd (rmatch section_flags occupants_re (prev, rest, None)))) =
        occupants_found_at rest"
    by (cases "occupants_label_end rest")
       (simp_all add: occupants_re_outs occupants_found_at_def first_opt_Nil
          section_outs_first_pair[where B=occ_boundary] occ_boundary_Nil)
qed

lemma tenants_found_direct: "tenants_found s = find_suffix tenants_found_at s"
  unfolding tenants_found_def re_search_def found_span_pair
proof (rule search_first_suffix_gen)
  fix prev rest
  show "map_option span_pair (first_opt (map snd (rmatch section_flags tenants_re (prev, rest, None)))) =
        tenants_found_at rest"
    by (cases "tenants_label_end rest")
       (simp_all add: tenants_re_outs tenants_found_at_def first_opt_Nil
          section_outs_first_pair[where B=ten_boundary] ten_boundary_Nil)
qed

section \<open>Section isolation\<close>

lemma find_suffix_Some:
  "find_suffix H t = Some x \<Longrightarrow> \<exists>pre s. t = pre @ s \<and> H s = Some x"
proof (induction t)
  case Nil
  then show ?case by simp
next
  case (Cons c cs)
  show ?case
  proof (cases "H (c # cs)")
    case None
    with Cons obtain pre s where "cs = pre @ s" "H s = Some x" by auto
    then have "c # cs = (c # pre) @ s \<and> H s = Some x" by simp
    then show ?thesis by blast
  next
    case (Some y)
    with Cons.prems have "c # cs = [] @ (c # cs) \<and> H (c # cs) = Some x" by simp
    then show ?thesis by blast
  qed
qed

lemma lit_rest_Some:
  "lit_rest f w s = Some r \<Longrightarrow> \<exists>w'. s = w' @ r \<and> same_word f w w'"
proof (induction w arbitrary: s)
  case Nil
  then show ?case by (simp add: same_word_def)
next
  case (Cons p ps)
  from Cons.prems obtain c cs where s: "s = c # cs" by (cases s) auto
  with Cons.prems have ok: "atom_ok f (Ch p) c" and "lit_rest f ps cs = Some r"
    by (auto simp del: atom_ok.simps split: if_splits)
  from Cons.IH[OF this(2)] obtain w' where "cs = w' @ r" "same_word f ps w'" by blast
  with ok s have "s = (c # w') @ r \<and> same_word f (p # ps) (c # w')"
    by (simp add: same_word_def)
  then show ?case by blast
qed

lemma colon_end_Some:
  assumes "colon_end s = Some r"
  shows "\<exists>ws. s = ws @ '':'' @ r \<and> (\<forall>c \<in> set ws. py_isspace c)"
proof -
  from assms have "dropWhile py_isspace s = CHR '':'' # r"
    by (auto simp: colon_end_def p_ws_def p_colon_def split: list.splits if_splits)
  then have "s = takeWhile py_isspace s @ '':'' @ r"
    using takeWhile_dropWhile_id[of py_isspace s] by simp
  moreover have "\<forall>c \<in> set (takeWhile py_isspace s). py_isspace c"
    by (auto dest: set_takeWhileD)
  ultimately show ?thesis by blast
qed

lemma p_ws1_Some:
  assumes "p_ws 1 s = Some r"
  shows "\<exists>ws. s = ws @ r \<and> ws \<noteq> [] \<and> (\<forall>c \<in> set ws. py_isspace c)"
proof -
  from assms have r: "r = dropWhile py_isspace s" and n: "takeWhile py_isspace s \<noteq> []"
    by (auto simp: p_ws_def split: if_splits)
  have "s = takeWhile py_isspace s @ r" by (simp add: r)
  moreover have "\<forall>c \<in> set (takeWhile py_isspace s). py_isspace c"
    by (auto dest: set_takeWhileD)
  ultimately show ?thesis using n by blast
qed

lemma until_boundary_split:
  "\<exists>rest. cs = until_boundary B cs @ rest \<and> (rest = [] \<or> B rest) \<and>
          (\<forall>j < length (until_boundary B cs). \<not> B (drop j (until_boundary B cs) @ rest))"
proof (induction cs)
  case Nil
  then show ?case by simp
next
  case (Cons d ds)
  show ?case
  proof (cases "B (d # ds)")
    case True
    then show ?thesis by simp
  next
    case False
    from Cons obtain rest where r: "ds = until_boundary B ds @ rest" "rest = [] \<or> B rest"
      and inner: "\<forall>j < length (until_boundary B ds). \<not> B (drop j (until_boundary B ds) @ rest)"
      by blast
    have "\<not> B (drop j (d # until_boundary B ds) @ rest)" if "j < Suc (length (until_boundary B ds))" for j
    proof (cases j)
      case 0
      with False r(1) show ?thesis by simp
    next
      case (Suc k)
      with that inner show ?thesis by simp
    qed
    with False r show ?thesis by auto
  qed
qed

lemma section_found_Some:
  assumes "section_body B s = Some sec" and "B []"
  shows "\<exists>ws. s = ws @ sec @ section_rest B s \<and> (\<forall>c \<in> set ws. py_isspace c) \<and>
           B (section_rest B s) \<and>
           (\<forall>i. 0 < i \<and> i < length sec \<longrightarrow> \<not> B (drop i sec @ section_rest B s))"
proof (cases "dropWhile py_isspace s")
  case Nil
  with assms(1) have ne: "s \<noteq> []" and sec: "sec = [last s]"
    by (auto simp: section_body_def simp del: dropWhile_eq_Nil_conv split: if_splits)
  from Nil have r: "section_rest B s = []"
    by (simp add: section_rest_def del: dropWhile_eq_Nil_conv)
  from Nil have all: "\<forall>c \<in> set s. py_isspace c" by simp
  have "s = butlast s @ sec @ section_rest B s" using ne sec r by simp
  moreover have "\<forall>c \<in> set (butlast s). py_isspace c" using all by (auto dest: in_set_butlastD)
  ultimately show ?thesis using sec assms(2) r by (intro exI[of _ "butlast s"]) auto
next
  case (Cons c cs)
  with assms(1) have sec: "sec = c # until_boundary B cs"
    by (simp add: section_body_def)
  from Cons have sr: "section_rest B s = drop (length (until_boundary B cs)) cs"
    by (simp add: section_rest_def)
  from until_boundary_split[of cs B] obtain rest where r: "cs = until_boundary B cs @ rest"
    and b: "rest = [] \<or> B rest"
    and inner: "\<forall>j < length (until_boundary B cs). \<not> B (drop j (until_boundary B cs) @ rest)"
    by blast
  from r have rest: "rest = section_rest B s"
    unfolding sr by (metis append_eq_conv_conj)
  have s: "s = takeWhile py_isspace s @ sec @ rest"
    using takeWhile_dropWhile_id[of py_isspace s] Cons sec r by simp
  have ws: "\<forall>c \<in> set (takeWhile py_isspace s). py_isspace c" by (auto dest: set_takeWhileD)
  have "\<not> B (drop i sec @ rest)" if "0 < i" "i < length sec" for i
  proof -
    from that obtain j where "i = Suc j" by (cases i) auto
    with that inner sec show ?thesis by simp
  qed
  with s ws b assms(2) show ?thesis
    unfolding rest[symmetric] by (intro exI[of _ "takeWhile py_isspace s"]) auto
qed

lemma occupants_found_bounds:
  assumes "occupants_found t = Some (sec, rest)"
  shows "\<exists>pre w ws1 ws2.
           t = pre @ w @ ws1 @ '':'' @ ws2 @ sec @ rest \<and>
           same_word section_flags ''Occupants Names'' w \<and>
           (\<forall>c \<in> set (ws1 @ ws2). py_isspace c) \<and> occ_boundary rest \<and>
           (\<forall>i. 0 < i \<and> i < length sec \<longrightarrow> \<not> occ_boundary (drop i sec @ rest))"
proof -
  from assms obtain pre s where t: "t = pre @ s" and at: "occupants_found_at s = Some (sec, rest)"
    unfolding occupants_found_direct by (blast dest: find_suffix_Some)
  from at obtain r2 where l: "occupants_label_end s = Some r2"
    and b: "section_body occ_boundary r2 = Some sec" and rest: "rest = section_rest occ_boundary r2"
    by (auto simp: occupants_found_at_def split: option.splits)
  from l obtain r1 where l1: "lit_rest section_flags ''Occupants Names'' s = Some r1"
    and c: "colon_end r1 = Some r2"
    by (auto simp: occupants_label_end_def bind_eq_Some_conv simp del: lit_rest.simps)
  from lit_rest_Some[OF l1] obtain w where w: "s = w @ r1"
    and sw: "same_word section_flags ''Occupants Names'' w" by blast
  from colon_end_Some[OF c] obtain ws1 where r1: "r1 = ws1 @ '':'' @ r2"
    and s1: "\<forall>c \<in> set ws1. py_isspace c" by blast
  from section_found_Some[OF b occ_boundary_Nil] obtain ws2
    where r2: "r2 = ws2 @ sec @ rest" and s2: "\<forall>c \<in> set ws2. py_isspace c"
      and bd: "occ_boundary rest"
        "\<forall>i. 0 < i \<and> i < length sec \<longrightarrow> \<not> occ_boundary (drop i sec @ rest)"
    unfolding rest by blast
  have "t = pre @ w @ ws1 @ '':'' @ ws2 @ sec @ rest" using t w r1 r2 by simp
  moreover have "\<forall>c \<in> set (ws1 @ ws2). py_isspace c" using s1 s2 by auto
  ultimately show ?thesis using sw bd by blast
qed

lemma tenants_found_bounds:
  assumes "tenants_found t = Some (sec, rest)"
  shows "\<exists>pre w1 ws w2 ws1 ws2.
           t = pre @ w1 @ ws @ w2 @ ws1 @ '':'' @ ws2 @ sec @ rest \<and>
           same_word section_flags ''Tenants'' w1 \<and> ws \<noteq> [] \<and>
           same_word section_flags ''names'' w2 \<and>
           (\<forall>c \<in> set (ws @ ws1 @ ws2). py_isspace c) \<and> ten_boundary rest \<and>
           (\<forall>i. 0 < i \<and> i < length sec \<longrightarrow> \<not> ten_boundary (drop i sec @ rest))"
proof -
  from assms obtain pre s where t: "t = pre @ s" and at: "tenants_found_at s = Some (sec, rest)"
    unfolding tenants_found_direct by (blast dest: find_suffix_Some)
  from at obtain r4 where l: "tenants_label_end s = Some r4"
    and b: "section_body ten_boundary r4 = Some sec" and rest: "rest = section_rest ten_boundary r4"
    by (auto simp: tenants_found_at_def split: option.splits)
  from l obtain r1 r2 r3 where l1: "lit_rest section_flags ''Tenants'' s = Some r1"
    and p: "p_ws 1 r1 = Some r2"
    and l2: "lit_rest section_flags ''names'' r2 = Some r3"
    and c: "colon_end r3 = Some r4"
    by (auto simp: tenants_label_end_def bind_eq_Some_conv simp del: lit_rest.simps)
  from lit_rest_Some[OF l1] obtain w1 where w1: "s = w1 @ r1"
    and sw1: "same_word section_flags ''Tenants'' w1" by blast
  from p_ws1_Some[OF p] obtain ws where ws: "r1 = ws @ r2" "ws \<noteq> []" "\<forall>c \<in> set ws. py_isspace c"
    by blast
  from lit_rest_Some[OF l2] obtain w2 where w2: "r2 = w2 @ r3"
    and sw2: "same_word section_flags ''names'' w2" by blast
  from colon_end_Some[OF c] obtain ws1 where r3: "r3 = ws1 @ '':'' @ r4"
    and s1: "\<forall>c \<in> set ws1. py_isspace c" by blast
  from section_found_Some[OF b ten_boundary_Nil] obtain ws2
    where r4: "r4 = ws2 @ sec @ rest" and s2: "\<forall>c \<in> set ws2. py_isspace c"
      and bd: "ten_boundary rest"
        "\<forall>i. 0 < i \<and> i < length sec \<longrightarrow> \<not> ten_boundary (drop i sec @ rest)"
    unfolding rest by blast
  have "t = pre @ w1 @ ws @ w2 @ ws1 @ '':'' @ ws2 @ sec @ rest"
    using t w1 ws(1) w2 r3 r4 by simp
  moreover have "\<forall>c \<in> set (ws @ ws1 @ ws2). py_isspace c" using ws(3) s1 s2 by auto
  ultimately show ?thesis using sw1 sw2 ws(2) bd by blast
qed

lemma from_start:
  assumes "\<not> B (sec @ rest)" and "\<forall>i. 0 < i \<and> i < length sec \<longrightarrow> \<not> B (drop i sec @ rest)"
  shows "\<forall>i < length sec. \<not> B (drop i sec @ rest)"
proof (intro allI impI)
  fix i assume "i < length sec"
  then show "\<not> B (drop i sec @ rest)" using assms by (cases i) auto
qed

subsection \<open>Evaluation on the scenario inputs\<close>

lemma occupant_names_parse_str:
  "occupant_names (parse_str s) =
     (case occupants_match (py_strip s) of None \<Rightarrow> []
      | Some g \<Rightarrow> collect_names [] (occupant_parts (py_strip g)))"
  by (simp add: parse_str_def default_info_def Let_def split: option.split)

lemma tenant_names_parse_str:
  "tenant_names (parse_str s) =
     (case tenants_match (py_strip s) of None \<Rightarrow> []
      | Some g \<Rightarrow> collect_names [] (tenant_parts (py_strip g)))"
  by (simp add: parse_str_def default_info_def Let_def split: option.split)

lemma occupant_count_parse_str:
  "occupant_count (parse_str s) = int (length (occupant_names (parse_str s)))"
  by (simp add: parse_str_def default_info_def Let_def split: option.split)

lemma tenant_count_parse_str:
  "tenant_count (parse_str s) = int (length (tenant_names (parse_str s)))"
  by (simp add: parse_str_def default_info_def Let_def split: option.split)

lemma scenario_strip: "py_strip scenario_text = scenario_text"
  unfolding scenario_text_def by code_simp

lemma scenario_occupants_match:
  "occupants_match scenario_text = Some ''1). Jose Fernandes 2). %Maria Souza, ''"
  unfolding occupants_match_direct scenario_text_def by code_simp

lemma scenario_tenants_match:
  "tenants_match scenario_text = Some ''nil ''"
  unfolding tenants_match_direct scenario_text_def by code_simp

lemma scenario_occupant_names:
  "collect_names [] (occupant_parts (py_strip ''1). Jose Fernandes 2). %Maria Souza, '')) =
     [''Jose Fernandes'', ''Maria Souza'']"
  by code_simp

lemma scenario_tenant_names:
  "collect_names [] (tenant_parts (py_strip ''nil '')) = []"
  by code_simp

lemma scenario_names:
  "occupant_names (parse_owners_raw_field (PyStr scenario_text)) =
     [''Jose Fernandes'', ''Maria Souza''] \<and>
   tenant_names (parse_owners_raw_field (PyStr scenario_text)) = []"
  by (simp add: parse_owners_raw_field_def occupant_names_parse_str tenant_names_parse_str
      scenario_strip scenario_occupants_match scenario_tenants_match scenario_occupant_names
      scenario_tenant_names)

lemma repeated_strip: "py_strip repeated_text = repeated_text"
  unfolding repeated_text_def by code_simp

lemma repeated_occupants_match:
  "occupants_match repeated_text = Some ''1). A b 2). nil 3). A  b, 4). C''"
  unfolding occupants_match_direct repeated_text_def by code_simp

lemma repeated_tenants_match: "tenants_match repeated_text = None"
  unfolding tenants_match_direct repeated_text_def by code_simp

lemma repeated_occupant_names:
  "collect_names [] (occupant_parts (py_strip ''1). A b 2). nil 3). A  b, 4). C'')) =
     [''A b'', ''C'']"
  by code_simp

lemma repeated_accepted_names:
  "accepted_names (occupant_parts (py_strip ''1). A b 2). nil 3). A  b, 4). C'')) =
     [''A b'', ''A b'', ''C'']"
  by code_simp

lemma repeated_names:
  "occupant_names (parse_owners_raw_field (PyStr repeated_text)) = [''A b'', ''C''] \<and>
   tenant_names (parse_owners_raw_field (PyStr repeated_text)) = []"
  by (simp add: parse_owners_raw_field_def occupant_names_parse_str tenant_names_parse_str
      repeated_strip repeated_occupants_match repeated_tenants_match repeated_occupant_names)

lemma repeated_candidates:
  "occupant_candidates (PyStr repeated_text) = [''A b'', ''A b'', ''C'']"
  by (simp add: occupant_candidates_def repeated_strip repeated_occupants_match
      repeated_accepted_names)

lemma rule_run_example: "occupants_match ''Occupants Names: A ===== B'' = Some ''A ===== B''"
  unfolding occupants_match_direct by code_simp

lemma scenario_occupants_found:
  "occupants_found scenario_text =
     Some (''1). Jose Fernandes 2). %Maria Souza, '', ''Tenants names: nil Total Area: 500 sq m'')"
  unfolding occupants_found_direct scenario_text_def by code_simp

lemma scenario_tenants_found:
  "tenants_found scenario_text = Some (''nil '', ''Total Area: 500 sq m'')"
  unfolding tenants_found_direct scenario_text_def by code_simp

lemma scenario_occupants_start:
  "\<not> occ_boundary (''1). Jose Fernandes 2). %Maria Souza, '' @ ''Tenants names: nil Total Area: 500 sq m'')"
  by code_simp

lemma scenario_tenants_start:
  "\<not> ten_boundary (''nil '' @ ''Total Area: 500 sq m'')"
  by code_simp

subsection \<open>The bounds of the two sections\<close>

text \<open>
  C3, as the specification states it, fails on the code: the look-ahead of the source's
  pattern names seven dashes, not a run of five or more dash or equals characters. On the
  text below the section holds a run of five equals signs, which by the claim would have
  ended it two characters in.
\<close>

theorem section_rule_run_counterexample:
  "occupants_match ''Occupants Names: A ===== B'' = Some ''A ===== B'' \<and>
   spec_rule_run (drop 2 ''A ===== B'')"
  by (simp add: rule_run_example spec_rule_run_def)

text \<open>
  C3, amended. \<open>occupants_found\<close> is the search of the source with, beside the group, the
  text \<open>rest\<close> that follows it; \<open>occupants_match\<close> is its first component. Take a text on
  which the Occupants pattern matches and whose section does not itself begin at a
  boundary. Then the text is \<open>pre @ w @ ws1 @ '':'' @ ws2 @ sec @ rest\<close>: the words Occupants
  Names as the pattern matches them with the letter case ignored, whitespace, a colon,
  whitespace, and the section \<open>sec\<close>. What follows the section is the end of the text or
  begins with \<^verbatim>\<open>Tenants\s+names\s*:\<close> or \<^verbatim>\<open>Total Area\s*:\<close> (letter case ignored) or with
  seven dashes (\<open>occ_boundary rest\<close>), and no such boundary begins at any place of the
  section: it ends at the nearest one. Nothing is said of the characters of \<open>sec\<close>, so
  it spans lines. The Tenants section is bounded in the same way, after the words Tenants
  and names with whitespace between them, by \<^verbatim>\<open>Total Area\s*:\<close>, seven dashes or the end
  of the text (\<open>ten_boundary\<close>). A section that begins at a boundary is left out of the
  statement.
\<close>

theorem section_bounds:
  "occupants_match t = map_option fst (occupants_found t) \<and>
   tenants_match t = map_option fst (tenants_found t) \<and>
   (occupants_found t = Some (sec, rest) \<and> \<not> occ_boundary (sec @ rest) \<longrightarrow>
      (\<exists>pre w ws1 ws2.
         t = pre @ w @ ws1 @ '':'' @ ws2 @ sec @ rest \<and>
         same_word section_flags ''Occupants Names'' w \<and>
         (\<forall>c \<in> set (ws1 @ ws2). py_isspace c) \<and> occ_boundary rest \<and>
         (\<forall>i < length sec. \<not> occ_boundary (drop i sec @ rest)))) \<and>
   (tenants_found t = Some (sec', rest') \<and> \<not> ten_boundary (sec' @ rest') \<longrightarrow>
      (\<exists>pre w1 ws w2 ws1 ws2.
         t = pre @ w1 @ ws @ w2 @ ws1 @ '':'' @ ws2 @ sec' @ rest' \<and>
         same_word section_flags ''Tenants'' w1 \<and> ws \<noteq> [] \<and>
         same_word section_flags ''names'' w2 \<and>
         (\<forall>c \<in> set (ws @ ws1 @ ws2). py_isspace c) \<and> ten_boundary rest' \<and>
         (\<forall>i < length sec'. \<not> ten_boundary (drop i sec' @ rest'))))"
proof (intro conjI impI)
  show "occupants_match t = map_option fst (occupants_found t)"
    by (rule occupants_match_found)
next
  show "tenants_match t = map_option fst (tenants_found t)"
    by (rule tenants_match_found)
next
  assume a: "occupants_found t = Some (sec, rest) \<and> \<not> occ_boundary (sec @ rest)"
  from occupants_found_bounds[of t sec rest] a obtain pre w ws1 ws2
    where d: "t = pre @ w @ ws1 @ '':'' @ ws2 @ sec @ rest"
      "same_word section_flags ''Occupants Names'' w"
      "\<forall>c \<in> set (ws1 @ ws2). py_isspace c" "occ_boundary rest"
    and inner: "\<forall>i. 0 < i \<and> i < length sec \<longrightarrow> \<not> occ_boundary (drop i sec @ rest)"
    by blast
  from a inner have "\<forall>i < length sec. \<not> occ_boundary (drop i sec @ rest)"
    by (intro from_start) simp_all
  with d show "\<exists>pre w ws1 ws2.
         t = pre @ w @ ws1 @ '':'' @ ws2 @ sec @ rest \<and>
         same_word section_flags ''Occupants Names'' w \<and>
         (\<forall>c \<in> set (ws1 @ ws2). py_isspace c) \<and> occ_boundary rest \<and>
         (\<forall>i < length sec. \<not> occ_boundary (drop i sec @ rest))"
    by blast
next
  assume a: "tenants_found t = Some (sec', rest') \<and> \<not> ten_boundary (sec' @ rest')"
  from tenants_found_bounds[of t sec' rest'] a obtain pre w1 ws w2 ws1 ws2
    where d: "t = pre @ w1 @ ws @ w2 @ ws1 @ '':'' @ ws2 @ sec' @ rest'"
      "same_word section_flags ''Tenants'' w1" "ws \<noteq> []"
      "same_word section_flags ''names'' w2"
      "\<forall>c \<in> set (ws @ ws1 @ ws2). py_isspace c" "ten_boundary rest'"
    and inner: "\<forall>i. 0 < i \<and> i < length sec' \<longrightarrow> \<not> ten_boundary (drop i sec' @ rest')"
    by blast
  from a inner have "\<forall>i < length sec'. \<not> ten_boundary (drop i sec' @ rest')"
    by (intro from_start) simp_all
  with d show "\<exists>pre w1 ws w2 ws1 ws2.
         t = pre @ w1 @ ws @ w2 @ ws1 @ '':'' @ ws2 @ sec' @ rest' \<and>
         same_word section_flags ''Tenants'' w1 \<and> ws \<noteq> [] \<and>
         same_word section_flags ''names'' w2 \<and>
         (\<forall>c \<in> set (ws @ ws1 @ ws2). py_isspace c) \<and> ten_boundary rest' \<and>
         (\<forall>i < length sec'. \<not> ten_boundary (drop i sec' @ rest'))"
    by blast
qed

theorem section_bounds_witness:
  "occupants_found scenario_text =
     Some (''1). Jose Fernandes 2). %Maria Souza, '', ''Tenants names: nil Total Area: 500 sq m'') \<and>
   \<not> occ_boundary (''1). Jose Fernandes 2). %Maria Souza, '' @ ''Tenants names: nil Total Area: 500 sq m'') \<and>
   tenants_found scenario_text = Some (''nil '', ''Total Area: 500 sq m'') \<and>
   \<not> ten_boundary (''nil '' @ ''Total Area: 500 sq m'') \<and>
   (\<exists>pre w ws1 ws2.
      scenario_text =
        pre @ w @ ws1 @ '':'' @ ws2 @ ''1). Jose Fernandes 2). %Maria Souza, '' @
        ''Tenants names: nil Total Area: 500 sq m'' \<and>
      same_word section_flags ''Occupants Names'' w \<and>
      (\<forall>c \<in> set (ws1 @ ws2). py_isspace c) \<and>
      occ_boundary ''Tenants names: nil Total Area: 500 sq m'' \<and>
      (\<forall>i < length ''1). Jose Fernandes 2). %Maria Souza, ''.
          \<not> occ_boundary (drop i ''1). Jose Fernandes 2). %Maria Souza, '' @
                           ''Tenants names: nil Total Area: 500 sq m''))) \<and>
   (\<exists>pre w1 ws w2 ws1 ws2.
      scenario_text = pre @ w1 @ ws @ w2 @ ws1 @ '':'' @ ws2 @ ''nil '' @ ''Total Area: 500 sq m'' \<and>
      same_word section_flags ''Tenants'' w1 \<and> ws \<noteq> [] \<and>
      same_word section_flags ''names'' w2 \<and>
      (\<forall>c \<in> set (ws @ ws1 @ ws2). py_isspace c) \<and>
      ten_boundary ''Total Area: 500 sq m'' \<and>
      (\<forall>i < length ''nil ''. \<not> ten_boundary (drop i ''nil '' @ ''Total Area: 500 sq m'')))"
proof -
  note b = section_bounds[of scenario_text "''1). Jose Fernandes 2). %Maria Souza, ''"
      "''Tenants names: nil Total Area: 500 sq m''" "''nil ''" "''Total Area: 500 sq m''"]
  note c = conjunct2[OF conjunct2[OF b]]
  note o = mp[OF conjunct1[OF c] conjI[OF scenario_occupants_found scenario_occupants_start]]
  note t = mp[OF conjunct2[OF c] conjI[OF scenario_tenants_found scenario_tenants_start]]
  show ?thesis
    by (rule conjI[OF scenario_occupants_found conjI[OF scenario_occupants_start
          conjI[OF scenario_tenants_found conjI[OF scenario_tenants_start conjI[OF o t]]]]])
qed

text \<open>
  The hypothesis on the start of the section is needed: the group \<^verbatim>\<open>(.+?)\<close> takes one
  character before the look-ahead is tried, so a label that stands right after the colon
  becomes part of the section.
\<close>

lemma section_start_at_boundary_example:
  "occupants_match ''Occupants Names: Tenants names: X'' = Some ''Tenants names: X'' \<and>
   occ_boundary ''Tenants names: X''"
proof
  show "occupants_match ''Occupants Names: Tenants names: X'' = Some ''Tenants names: X''"
    unfolding occupants_match_direct by code_simp
  show "occ_boundary ''Tenants names: X''"
    by code_simp
qed

section \<open>Properties of the Land-Record Field Extractor\<close>

subsection \<open>Counts and defaults\<close>

text \<open>
  C1. For every input, \<open>occupant_count\<close> is the length of \<open>occupant_names\<close> and
  \<open>tenant_count\<close> is the length of \<open>tenant_names\<close>.
\<close>

theorem counts_are_lengths:
  "occupant_count (parse_owners_raw_field v) =
     int (length (occupant_names (parse_owners_raw_field v))) \<and>
   tenant_count (parse_owners_raw_field v) =
     int (length (tenant_names (parse_owners_raw_field v)))"
  by (simp add: parse_owners_raw_field_def occupant_count_parse_str tenant_count_parse_str)
     (simp add: default_info_def)

theorem counts_are_lengths_witness:
  "occupant_count (parse_owners_raw_field (PyStr scenario_text)) = 2 \<and>
   tenant_count (parse_owners_raw_field (PyStr scenario_text)) = 0"
  using counts_are_lengths[of "PyStr scenario_text"] scenario_names by simp

lemma call_scalar:
  "parse_owners_raw_field_call (Scalar v) = Inr (parse_owners_raw_field v)"
  by (cases v) (simp_all add: parse_owners_raw_field_call_def guard_def parse_owners_raw_field_def)




text \<open>
  C4. On the scenario input the occupants are Jose Fernandes and Maria Souza, two of them,
  and there is no tenant.
\<close>

theorem scenario_jose_maria:
  "occupant_names (parse_owners_raw_field (PyStr
      ''Occupants Names: 1). Jose Fernandes 2). %Maria Souza, Tenants names: nil Total Area: 500 sq m'')) =
     [''Jose Fernandes'', ''Maria Souza''] \<and>
   occupant_count (parse_owners_raw_field (PyStr
      ''Occupants Names: 1). Jose Fernandes 2). %Maria Souza, Tenants names: nil Total Area: 500 sq m'')) = 2 \<and>
   tenant_names (parse_owners_raw_field (PyStr
      ''Occupants Names: 1). Jose Fernandes 2). %Maria Souza, Tenants names: nil Total Area: 500 sq m'')) = [] \<and>
   tenant_count (parse_owners_raw_field (PyStr
      ''Occupants Names: 1). Jose Fernandes 2). %Maria Souza, Tenants names: nil Total Area: 500 sq m'')) = 0"
proof -
  have "occupant_names (parse_owners_raw_field (PyStr scenario_text)) =
          [''Jose Fernandes'', ''Maria Souza''] \<and>
        occupant_count (parse_owners_raw_field (PyStr scenario_text)) = 2 \<and>
        tenant_names (parse_owners_raw_field (PyStr scenario_text)) = [] \<and>
        tenant_count (parse_owners_raw_field (PyStr scenario_text)) = 0"
    using scenario_names
    by (simp add: parse_owners_raw_field_def occupant_count_parse_str tenant_count_parse_str)
  then show ?thesis unfolding scenario_text_def .
qed

subsection \<open>Ordered sets of names\<close>

lemma set_keep_first: "set (keep_first xs) = set xs"
  by (induction xs rule: keep_first.induct) auto

lemma distinct_keep_first: "distinct (keep_first xs)"
  by (induction xs rule: keep_first.induct) (auto simp: set_keep_first)

lemma keep_first_filter:
  "filter (\<lambda>y. y \<noteq> x) (filter (\<lambda>y. y \<notin> A) xs) = filter (\<lambda>y. y \<notin> insert x A) xs"
  by (induction xs) auto

lemma collect_names_keep_first:
  "distinct names \<Longrightarrow>
   collect_names names parts =
     names @ keep_first (filter (\<lambda>n. n \<notin> set names) (accepted_names parts))"
proof (induction parts arbitrary: names)
  case Nil
  then show ?case by (simp add: accepted_names_def)
next
  case (Cons p ps)
  let ?c = "clean_name (py_strip p)"
  show ?case
  proof (cases "py_strip p \<noteq> [] \<and> ?c \<noteq> [] \<and> py_lower ?c \<notin> set placeholders")
    case False
    then have "accepted_names (p # ps) = accepted_names ps"
      by (auto simp: accepted_names_def)
    moreover from False have "collect_names names (p # ps) = collect_names names ps"
      by (auto simp: Let_def)
    ultimately show ?thesis using Cons.IH[OF Cons.prems] by simp
  next
    case True
    then have acc: "accepted_names (p # ps) = ?c # accepted_names ps"
      by (auto simp: accepted_names_def)
    show ?thesis
    proof (cases "?c \<in> set names")
      case True
      with \<open>py_strip p \<noteq> [] \<and> ?c \<noteq> [] \<and> py_lower ?c \<notin> set placeholders\<close>
      have "collect_names names (p # ps) = collect_names names ps"
        by (auto simp: Let_def)
      with True acc Cons.IH[OF Cons.prems] show ?thesis by simp
    next
      case False
      with True have step: "collect_names names (p # ps) = collect_names (names @ [?c]) ps"
        by (auto simp: Let_def)
      from False Cons.prems have d: "distinct (names @ [?c])" by simp
      have "filter (\<lambda>n. n \<notin> set (names @ [?c])) (accepted_names ps) =
            filter (\<lambda>y. y \<noteq> ?c) (filter (\<lambda>n. n \<notin> set names) (accepted_names ps))"
        by (simp add: keep_first_filter conj_commute)
      with step Cons.IH[OF d] acc False show ?thesis by simp
    qed
  qed
qed

text \<open>
  C9. For every input, neither list holds a name twice (names compared exactly), and each
  list is its candidates in order with the first occurrence of every name kept.
\<close>

theorem names_are_ordered_sets:
  "distinct (occupant_names (parse_owners_raw_field v)) \<and>
   distinct (tenant_names (parse_owners_raw_field v)) \<and>
   occupant_names (parse_owners_raw_field v) = keep_first (occupant_candidates v) \<and>
   tenant_names (parse_owners_raw_field v) = keep_first (tenant_candidates v)"
proof (cases "pd_isna v \<or> \<not> isinstance_str v")
  case True
  then have "parse_owners_raw_field v = default_info"
    by (simp add: parse_owners_raw_field_def)
  moreover from True have "occupant_candidates v = []" "tenant_candidates v = []"
    by (simp_all add: occupant_candidates_def tenant_candidates_def)
  ultimately show ?thesis by (simp add: default_info_def)
next
  case False
  then obtain s where v: "v = PyStr s" by (cases v) auto
  have o: "occupant_names (parse_owners_raw_field v) = keep_first (occupant_candidates v)"
    by (simp add: v parse_owners_raw_field_def occupant_names_parse_str occupant_candidates_def
        collect_names_keep_first split: option.split)
  have t: "tenant_names (parse_owners_raw_field v) = keep_first (tenant_candidates v)"
    by (simp add: v parse_owners_raw_field_def tenant_names_parse_str tenant_candidates_def
        collect_names_keep_first split: option.split)
  show ?thesis by (simp add: o t distinct_keep_first)
qed

theorem names_are_ordered_sets_witness:
  "occupant_candidates (PyStr repeated_text) = [''A b'', ''A b'', ''C''] \<and>
   occupant_names (parse_owners_raw_field (PyStr repeated_text)) = [''A b'', ''C''] \<and>
   distinct (occupant_names (parse_owners_raw_field (PyStr repeated_text)))"
  using names_are_ordered_sets[of "PyStr repeated_text"] repeated_candidates by simp

subsection \<open>No placeholder and no blank name\<close>

lemma py_strip_head: "py_strip s \<noteq> [] \<Longrightarrow> \<not> py_isspace (hd (py_strip s))"
proof -
  assume ne: "py_strip s \<noteq> []"
  let ?d = "dropWhile py_isspace s"
  from ne have "?d \<noteq> []" by (cases "?d = []") (simp_all add: py_strip_def)
  then obtain x xs where d: "?d = x # xs" by (cases ?d) auto
  then have nx: "\<not> py_isspace x" using hd_dropWhile[of py_isspace s] by auto
  have "dropWhile py_isspace (rev xs @ [x]) = dropWhile py_isspace (rev xs) @ [x]"
    using nx by (simp add: dropWhile_append)
  then have "py_strip s = x # rev (dropWhile py_isspace (rev xs))"
    by (simp add: py_strip_def d)
  with nx show ?thesis by simp
qed

lemma scan_first_piece: "\<exists>x xs. scan f r prev rest skip seg = (rev seg @ x) # xs"
proof (induction rest arbitrary: prev skip seg)
  case Nil
  then show ?case by simp
next
  case (Cons c cs)
  show ?case
  proof (cases "skip > 0")
    case True
    with Cons[of "Some c" "skip - 1" seg] show ?thesis by simp
  next
    case False
    show ?thesis
    proof (cases "match_lengths f r prev (c # cs)")
      case Nil
      with False Cons[of "Some c" 0 "c # seg"] show ?thesis by auto
    next
      case (Cons n ns)
      with False show ?thesis by (auto split: list.split)
    qed
  qed
qed

lemma py_join_first: "py_join sep ((a @ x) # xs) = a @ py_join sep (x # xs)"
  by (cases xs) simp_all

lemma re_sub_spaces_head:
  assumes "\<not> py_isspace c"
  shows "\<exists>t. re_sub no_flags spaces_re sep (c # cs) = c # t"
proof -
  have "match_lengths no_flags spaces_re None (c # cs) = []"
    using assms by (simp add: match_lengths_def spaces_re_def)
  then have "re_split no_flags spaces_re (c # cs) = scan no_flags spaces_re (Some c) cs 0 [c]"
    by (simp add: re_split_def)
  moreover obtain x xs where "scan no_flags spaces_re (Some c) cs 0 [c] = (rev [c] @ x) # xs"
    using scan_first_piece by blast
  ultimately have "re_sub no_flags spaces_re sep (c # cs) = [c] @ py_join sep (x # xs)"
    unfolding re_sub_def by (simp only: py_join_first) simp
  then show ?thesis by simp
qed

lemma re_sub_spaces_Nil: "re_sub no_flags spaces_re sep [] = []"
  by (simp add: re_sub_def re_split_def match_lengths_def spaces_re_def)

lemma clean_name_head:
  assumes "clean_name part \<noteq> []"
  shows "\<not> py_isspace (hd (clean_name part))"
proof -
  define c2 where "c2 = py_strip (re_sub no_flags trailing_re [] (py_strip (re_sub no_flags prefix_re [] part)))"
  have cn: "clean_name part = re_sub no_flags spaces_re '' '' c2"
    by (simp add: clean_name_def c2_def Let_def)
  with assms have "c2 \<noteq> []" by (auto simp: re_sub_spaces_Nil)
  then obtain c cs where c2: "c2 = c # cs" by (cases c2) auto
  have "\<not> py_isspace (hd c2)" using py_strip_head[of "re_sub no_flags trailing_re [] (py_strip (re_sub no_flags prefix_re [] part))"] \<open>c2 \<noteq> []\<close>
    by (simp add: c2_def)
  then have nc: "\<not> py_isspace c" by (simp add: c2)
  from re_sub_spaces_head[OF nc] obtain t where "re_sub no_flags spaces_re '' '' (c # cs) = c # t"
    by blast
  with cn c2 nc show ?thesis by simp
qed

lemma collect_names_acceptable:
  "list_all acceptable names \<Longrightarrow> list_all acceptable (collect_names names parts)"
proof (induction parts arbitrary: names)
  case Nil
  then show ?case by simp
next
  case (Cons p ps)
  let ?c = "clean_name (py_strip p)"
  show ?case
  proof (cases "py_strip p \<noteq> [] \<and> ?c \<noteq> [] \<and> py_lower ?c \<notin> set placeholders \<and> ?c \<notin> set names")
    case True
    then have "acceptable ?c" using clean_name_head[of "py_strip p"] by (simp add: acceptable_def)
    with Cons.prems have "list_all acceptable (names @ [?c])" by simp
    from Cons.IH[OF this] True show ?thesis by (simp add: Let_def)
  next
    case False
    then have "collect_names names (p # ps) = collect_names names ps"
      by (auto simp: Let_def)
    with Cons.IH[OF Cons.prems] show ?thesis by simp
  qed
qed

lemma parse_names_acceptable:
  "list_all acceptable (occupant_names (parse_owners_raw_field v)) \<and>
   list_all acceptable (tenant_names (parse_owners_raw_field v))"
proof (cases "pd_isna v \<or> \<not> isinstance_str v")
  case True
  then show ?thesis by (simp add: parse_owners_raw_field_def default_info_def)
next
  case False
  then show ?thesis
    by (simp add: parse_owners_raw_field_def occupant_names_parse_str tenant_names_parse_str
        collect_names_acceptable split: option.split)
qed

text \<open>
  C8. For every input, no name in either list is empty or made of whitespace only, and the
  lower case of no name is one of the placeholders nil, null, none, na, n/a and -.
\<close>

theorem names_are_real_names:
  "\<forall>n \<in> set (occupant_names (parse_owners_raw_field v)) \<union>
          set (tenant_names (parse_owners_raw_field v)).
     n \<noteq> [] \<and> \<not> (\<forall>c \<in> set n. py_isspace c) \<and> py_lower n \<notin> set placeholders"
proof
  fix n
  assume "n \<in> set (occupant_names (parse_owners_raw_field v)) \<union>
              set (tenant_names (parse_owners_raw_field v))"
  with parse_names_acceptable[of v] have a: "acceptable n"
    by (auto simp: list_all_iff)
  then have "n \<noteq> []" "\<not> py_isspace (hd n)" by (simp_all add: acceptable_def)
  then have "\<not> (\<forall>c \<in> set n. py_isspace c)" by (cases n) auto
  with a show "n \<noteq> [] \<and> \<not> (\<forall>c \<in> set n. py_isspace c) \<and> py_lower n \<notin> set placeholders"
    by (simp add: acceptable_def)
qed

theorem names_are_real_names_witness:
  "''A b'' \<in> set (occupant_names (parse_owners_raw_field (PyStr repeated_text))) \<and>
   \<not> (\<forall>c \<in> set ''A b''. py_isspace c) \<and>
   py_lower ''A b'' \<notin> set placeholders \<and>
   ''nil'' \<notin> set (occupant_names (parse_owners_raw_field (PyStr repeated_text)))"
  using names_are_real_names[of "PyStr repeated_text"] repeated_names by simp

section \<open>Properties of the classification\<close>

lemma alts_member:
  "r \<in> set rs \<Longrightarrow> rmatch f r st \<noteq> [] \<Longrightarrow> rmatch f (alts rs) st \<noteq> []"
  by (induction rs rule: alts.induct) auto

lemma search_from_finds:
  "(\<And>prev. rmatch f r (prev, rest, None) \<noteq> []) \<Longrightarrow> search_from f r prev (pre @ rest) \<noteq> None"
proof (induction pre arbitrary: prev)
  case Nil
  then show ?case by (cases rest) (auto split: list.split)
next
  case (Cons c cs)
  from Cons.IH[OF Cons.prems] show ?case by (auto split: list.split)
qed

lemma str_contains_word:
  assumes "w \<in> set ws" and "same_word contains_flags w w'"
  shows "str_contains (alts (map lit ws)) (pre @ w' @ post)"
proof -
  have "rmatch contains_flags (alts (map lit ws)) (prev, w' @ post, None) \<noteq> []" for prev
  proof (rule alts_member)
    show "lit w \<in> set (map lit ws)" using assms(1) by simp
    show "rmatch contains_flags (lit w) (prev, w' @ post, None) \<noteq> []"
      by (simp add: lit_matches_iff lit_rest_same_word[OF assms(2)])
  qed
  then show ?thesis
    unfolding str_contains_def re_search_def by (rule search_from_finds)
qed

lemma same_word_lower:
  "py_lower w' = py_lower w \<Longrightarrow> same_word contains_flags w w'"
  unfolding same_word_def py_lower_def
proof (induction w arbitrary: w')
  case Nil
  then show ?case by simp
next
  case (Cons p ps)
  then obtain c cs where "w' = c # cs" by (cases w') auto
  with Cons show ?case by (simp add: contains_flags_def)
qed

text \<open>
  C7. A row whose \<^verbatim>\<open>Owners Raw\<close> text contains Comunidade of Tiswadi is a comunidade
  row, whatever stands before and after it and whatever the other column holds; a row
  whose text contains Forest Department, Panaji is a government row.
\<close>

theorem classification_scenarios:
  "is_comunidade (Some (Text (pre @ ''Comunidade of Tiswadi'' @ post))) other \<and>
   is_government (Some (Text (pre' @ ''Forest Department, Panaji'' @ post')))"
proof
  have "same_word contains_flags ''Comunidad'' ''Comunidad''"
    by (rule same_word_lower) simp
  from str_contains_word[of "''Comunidad''" comunidade_variations "''Comunidad''" pre
      "''e of Tiswadi'' @ post", OF _ this]
  show "is_comunidade (Some (Text (pre @ ''Comunidade of Tiswadi'' @ post))) other"
    by (simp add: is_comunidade_def comunidade_pattern_def comunidade_variations_def)
next
  have "py_lower ''Forest'' = py_lower ''forest''" by code_simp
  then have "same_word contains_flags ''forest'' ''Forest''" by (rule same_word_lower)
  from str_contains_word[of "''forest''" government_keywords "''Forest''" pre'
      "'' Department, Panaji'' @ post'", OF _ this]
  show "is_government (Some (Text (pre' @ ''Forest Department, Panaji'' @ post')))"
    by (simp add: is_government_def government_pattern_def government_keywords_def)
qed

theorem classification_scenarios_witness:
  "is_comunidade (Some (Text ''Comunidade of Tiswadi'')) None \<and>
   is_government (Some (Text ''Forest Department, Panaji''))"
  using classification_scenarios[of "[]" "[]" None "[]" "[]"] by simp

text \<open>
  C10. The keyword list holds the word block followed by two spaces: every row whose
  \<^verbatim>\<open>Owners Raw\<close> text contains, in any letter case, block and two spaces is a government
  row.
\<close>

theorem block_keyword_is_government:
  assumes "py_lower w = ''block  ''"
  shows "is_government (Some (Text (pre @ w @ post)))"
proof -
  have "py_lower ''block  '' = ''block  ''" by code_simp
  with assms have "py_lower w = py_lower ''block  ''" by simp
  then have "same_word contains_flags ''block  '' w" by (rule same_word_lower)
  from str_contains_word[of "''block  ''" government_keywords w pre post, OF _ this]
  show ?thesis
    by (simp add: is_government_def government_pattern_def government_keywords_def)
qed

theorem block_keyword_is_government_witness:
  "is_government (Some (Text ''Plot in BLOCK  A near the road''))"
proof -
  have "py_lower ''BLOCK  '' = ''block  ''" by code_simp
  from block_keyword_is_government[OF this, of "''Plot in ''" "''A near the road''"]
  show ?thesis by simp
qed

end
